theory Spec2Isabelle
  imports Complex_Main "HOL-Library.Word" "HOL-Library.Multiset"
begin

unbundle bit_operations_syntax

section \<open>Data model\<close>

text \<open>
  The DSP core of fmus-embed (\<^verbatim>\<open>src/dsp/fft.cpp\<close>, \<^verbatim>\<open>src/dsp/filter.cpp\<close>,
  \<^verbatim>\<open>src/dsp/dsp.cpp\<close>). \<^verbatim>\<open>uint32_t\<close> values are 32-bit words, so that
  \<open>+\<close>, \<open>-\<close> and the shifts wrap as in the C++ code. The sample type \<^verbatim>\<open>T\<close> of the
  templates (\<^verbatim>\<open>float\<close> or \<^verbatim>\<open>double\<close>) is read as the real numbers. The running sum
  of the moving-average filter, where rounding errors accumulate in the state, is computed
  with the rounding \<open>rnd\<close> of the sample type, a parameter of the model; the other
  computations are in exact arithmetic. Infinities and NaN are outside this development.
\<close>

type_synonym u32 = "32 word"

text \<open>\<^verbatim>\<open>core::ErrorCode\<close>, restricted to the codes of the general group.\<close>

datatype ErrorCode =
    Unknown | InvalidArgument | NotImplemented | NotSupported | Timeout
  | ResourceUnavailable | InsufficientMemory | NotInitialized | DataError

text \<open>\<^verbatim>\<open>core::Result<T>\<close>: \<open>Inl\<close> is \<^verbatim>\<open>makeError\<close>, \<open>Inr\<close> is \<^verbatim>\<open>makeOk\<close>.\<close>

type_synonym 'a Result = "ErrorCode + 'a"

section \<open>Power-of-two helpers of the FFT engine\<close>

text \<open>\<^verbatim>\<open>FFT::isValidSize\<close>: \<^verbatim>\<open>size > 0 && (size & (size - 1)) == 0\<close>.\<close>

definition isValidSize :: "u32 \<Rightarrow> bool" where
  "isValidSize sz \<longleftrightarrow> sz > 0 \<and> (sz AND (sz - 1)) = 0"

text \<open>
  \<^verbatim>\<open>FFT::nextPowerOf2\<close>: decrement, smear the highest set bit to the right with five
  shift-and-or steps, increment. All steps are on \<^verbatim>\<open>uint32_t\<close>.
\<close>

definition nextPowerOf2 :: "u32 \<Rightarrow> u32" where
  "nextPowerOf2 n =
     (if n = 0 then 1
      else let n1 = n - 1;
               n2 = n1 OR drop_bit 1 n1;
               n3 = n2 OR drop_bit 2 n2;
               n4 = n3 OR drop_bit 4 n3;
               n5 = n4 OR drop_bit 8 n4;
               n6 = n5 OR drop_bit 16 n5
           in n6 + 1)"

text \<open>The five smearing steps alone, as they act on the decremented argument.\<close>

definition smear32 :: "u32 \<Rightarrow> u32" where
  "smear32 m = (let n2 = m OR drop_bit 1 m;
               n3 = n2 OR drop_bit 2 n2;
               n4 = n3 OR drop_bit 4 n3;
               n5 = n4 OR drop_bit 8 n4
           in n5 OR drop_bit 16 n5)"

text \<open>The specification side: \<open>p\<close> is the smallest power of two that is at least \<open>n\<close>.\<close>

definition least_pow2_ge :: "nat \<Rightarrow> nat \<Rightarrow> bool" where
  "least_pow2_ge p n \<longleftrightarrow>
     (\<exists>k. p = 2 ^ k) \<and> n \<le> p \<and> (\<forall>j. n \<le> 2 ^ j \<longrightarrow> p \<le> 2 ^ j)"

section \<open>Arithmetic of the sample type\<close>

text \<open>
  An arithmetic operation on values of the sample type returns the rounding \<open>rnd\<close> of its
  exact result. For IEEE 754 arithmetic in the default rounding mode \<open>rnd\<close> is
  \<open>fl_round p\<close>: the nearest number with a significand of \<open>p\<close> bits, ties to the even
  significand; \<open>p = 24\<close> is \<^verbatim>\<open>float\<close>, \<open>p = 53\<close> is \<^verbatim>\<open>double\<close>. The exponent is not bounded
  here, so this is the arithmetic of the normal range. Exact arithmetic is \<open>rnd = (\<lambda>x. x)\<close>.
\<close>

text \<open>The nearest integer, ties to even.\<close>

definition round_even :: "real \<Rightarrow> int" where
  "round_even x =
     (let f = \<lfloor>x\<rfloor>
      in if x - of_int f < 1 / 2 then f
         else if 1 / 2 < x - of_int f then f + 1
         else if even f then f else f + 1)"

definition pow2i :: "int \<Rightarrow> real" where
  "pow2i z = 2 powr of_int z"

text \<open>
  The unit in the last place of \<open>x\<close> is \<open>2\<close> to the power \<open>\<lfloor>log\<^sub>2 \<bar>x\<bar>\<rfloor> - p + 1\<close>; \<open>x\<close> is
  rounded to the nearest multiple of it.
\<close>

definition fl_round :: "nat \<Rightarrow> real \<Rightarrow> real" where
  "fl_round p x =
     (if x = 0 then 0
      else let u = pow2i (\<lfloor>log 2 \<bar>x\<bar>\<rfloor> - int p + 1)
           in u * of_int (round_even (x / u)))"

section \<open>Filter family\<close>

text \<open>\<^verbatim>\<open>FilterType\<close> and \<^verbatim>\<open>FilterImplementation\<close> of \<^verbatim>\<open>filter.h\<close>.\<close>

datatype FilterType = LowPassT | HighPassT | BandPassT | BandStopT | AllPassT

datatype FilterImplementation = FIR | IIR | Butterworth | Chebyshev1 | Chebyshev2 | Elliptic

text \<open>\<^verbatim>\<open>std::clamp(v, lo, hi)\<close>.\<close>

definition clamp :: "real \<Rightarrow> real \<Rightarrow> real \<Rightarrow> real" where
  "clamp v lo hi = (if v < lo then lo else if hi < v then hi else v)"

subsection \<open>LowPassFilter\<close>

record LowPassFilter =
  lp_alpha :: real
  lp_previousOutput :: real
  lp_order :: u32
  lp_implementation :: FilterImplementation

text \<open>\<^verbatim>\<open>LowPassFilter(T alpha)\<close>.\<close>

definition LowPassFilter_alpha :: "real \<Rightarrow> LowPassFilter" where
  "LowPassFilter_alpha alpha =
     \<lparr> lp_alpha = (if alpha \<le> 0 \<or> alpha \<ge> 1 then clamp alpha 0.001 0.999 else alpha),
       lp_previousOutput = 0, lp_order = 1, lp_implementation = IIR \<rparr>"

text \<open>\<^verbatim>\<open>LowPassFilter(T cutoffFreq, uint32_t order)\<close>.\<close>

definition LowPassFilter_cutoff :: "real \<Rightarrow> u32 \<Rightarrow> LowPassFilter" where
  "LowPassFilter_cutoff cutoffFreq order' =
     \<lparr> lp_alpha = clamp (1 - exp (- 2 * pi * cutoffFreq)) 0.001 0.999,
       lp_previousOutput = 0, lp_order = order', lp_implementation = Butterworth \<rparr>"

definition lp_process :: "LowPassFilter \<Rightarrow> real \<Rightarrow> real \<times> LowPassFilter" where
  "lp_process f input =
     (let out = lp_alpha f * input + (1 - lp_alpha f) * lp_previousOutput f
      in (out, f\<lparr>lp_previousOutput := out\<rparr>))"

definition lp_reset :: "LowPassFilter \<Rightarrow> LowPassFilter" where
  "lp_reset f = f\<lparr>lp_previousOutput := 0\<rparr>"

definition lp_getOrder :: "LowPassFilter \<Rightarrow> u32" where
  "lp_getOrder f = lp_order f"

subsection \<open>HighPassFilter\<close>

record HighPassFilter =
  hp_alpha :: real
  hp_previousInput :: real
  hp_previousOutput :: real
  hp_order :: u32
  hp_implementation :: FilterImplementation

definition HighPassFilter_alpha :: "real \<Rightarrow> HighPassFilter" where
  "HighPassFilter_alpha alpha =
     \<lparr> hp_alpha = (if alpha \<le> 0 \<or> alpha \<ge> 1 then clamp alpha 0.001 0.999 else alpha),
       hp_previousInput = 0, hp_previousOutput = 0, hp_order = 1, hp_implementation = IIR \<rparr>"

definition HighPassFilter_cutoff :: "real \<Rightarrow> u32 \<Rightarrow> HighPassFilter" where
  "HighPassFilter_cutoff cutoffFreq order' =
     \<lparr> hp_alpha = clamp (1 - exp (- 2 * pi * cutoffFreq)) 0.001 0.999,
       hp_previousInput = 0, hp_previousOutput = 0, hp_order = order',
       hp_implementation = Butterworth \<rparr>"

definition hp_process :: "HighPassFilter \<Rightarrow> real \<Rightarrow> real \<times> HighPassFilter" where
  "hp_process f input =
     (let out = hp_alpha f * (hp_previousOutput f + input - hp_previousInput f)
      in (out, f\<lparr>hp_previousOutput := out, hp_previousInput := input\<rparr>))"

definition hp_reset :: "HighPassFilter \<Rightarrow> HighPassFilter" where
  "hp_reset f = f\<lparr>hp_previousInput := 0, hp_previousOutput := 0\<rparr>"

definition hp_getOrder :: "HighPassFilter \<Rightarrow> u32" where
  "hp_getOrder f = hp_order f"

subsection \<open>BandPassFilter\<close>

text \<open>
  The two member filters are held by \<^verbatim>\<open>unique_ptr\<close>, so they are part of the value.
  \<^verbatim>\<open>order / 2\<close> is unsigned division.
\<close>

record BandPassFilter =
  bp_lowCutoff :: real
  bp_highCutoff :: real
  bp_order :: u32
  bp_lowPass :: LowPassFilter
  bp_highPass :: HighPassFilter

definition BandPassFilter_new :: "real \<Rightarrow> real \<Rightarrow> u32 \<Rightarrow> BandPassFilter" where
  "BandPassFilter_new lowCutoff highCutoff order' =
     (let lo = (if lowCutoff \<ge> highCutoff then highCutoff else lowCutoff);
          hi = (if lowCutoff \<ge> highCutoff then lowCutoff else highCutoff)
      in \<lparr> bp_lowCutoff = lo, bp_highCutoff = hi, bp_order = order',
           bp_lowPass = LowPassFilter_cutoff hi (order' div 2),
           bp_highPass = HighPassFilter_cutoff lo (order' div 2) \<rparr>)"

definition bp_process :: "BandPassFilter \<Rightarrow> real \<Rightarrow> real \<times> BandPassFilter" where
  "bp_process f input =
     (let (highPassOutput, hp') = hp_process (bp_highPass f) input;
          (out, lp') = lp_process (bp_lowPass f) highPassOutput
      in (out, f\<lparr>bp_highPass := hp', bp_lowPass := lp'\<rparr>))"

definition bp_reset :: "BandPassFilter \<Rightarrow> BandPassFilter" where
  "bp_reset f = f\<lparr>bp_highPass := hp_reset (bp_highPass f), bp_lowPass := lp_reset (bp_lowPass f)\<rparr>"

definition bp_getOrder :: "BandPassFilter \<Rightarrow> u32" where
  "bp_getOrder f = bp_order f"

subsection \<open>MovingAverageFilter\<close>

record MovingAverageFilter =
  ma_windowSize :: u32
  ma_buffer :: "real list"
  ma_index :: u32
  ma_sum :: real
  ma_bufferFull :: bool

text \<open>The constructor: a zero window size is replaced by 1; the buffer is zero-filled.\<close>

definition MovingAverageFilter_new :: "u32 \<Rightarrow> MovingAverageFilter" where
  "MovingAverageFilter_new windowSize =
     (let w = (if windowSize = 0 then 1 else windowSize)
      in \<lparr> ma_windowSize = w, ma_buffer = replicate (unat w) 0, ma_index = 0, ma_sum = 0,
           ma_bufferFull = False \<rparr>)"

text \<open>
  \<^verbatim>\<open>MovingAverageFilter::process(T)\<close>: evict the slot under the index from the running sum
  (\<^verbatim>\<open>m_sum -= m_buffer[m_index]\<close>), store the input there, add it to the running sum
  (\<^verbatim>\<open>m_sum += input\<close>), advance the index modulo the window size, and divide the running
  sum by the effective count (\<^verbatim>\<open>m_sum / static_cast<T>(divisor)\<close>). The subtraction, the
  addition, the conversion of the count and the division are operations of the sample
  type: each is rounded by \<open>rnd\<close>. The running sum is never recomputed from the buffer.
\<close>

definition ma_process ::
  "(real \<Rightarrow> real) \<Rightarrow> MovingAverageFilter \<Rightarrow> real \<Rightarrow> real \<times> MovingAverageFilter" where
  "ma_process rnd f input =
     (let sum1 = rnd (ma_sum f - ma_buffer f ! unat (ma_index f));
          buf = (ma_buffer f)[unat (ma_index f) := input];
          sum2 = rnd (sum1 + input);
          idx = (ma_index f + 1) mod ma_windowSize f;
          full = (if idx = 0 then True else ma_bufferFull f);
          divisor = (if full then ma_windowSize f
                     else (if idx = 0 then ma_windowSize f else idx))
      in (rnd (sum2 / rnd (real (unat divisor))),
          f\<lparr>ma_buffer := buf, ma_index := idx, ma_sum := sum2, ma_bufferFull := full\<rparr>))"

definition ma_reset :: "MovingAverageFilter \<Rightarrow> MovingAverageFilter" where
  "ma_reset f = f\<lparr>ma_buffer := replicate (length (ma_buffer f)) 0, ma_index := 0, ma_sum := 0,
                  ma_bufferFull := False\<rparr>"

definition ma_getOrder :: "MovingAverageFilter \<Rightarrow> u32" where
  "ma_getOrder f = ma_windowSize f"

subsection \<open>MedianFilter\<close>

record MedianFilter =
  med_windowSize :: u32
  med_buffer :: "real list"
  med_index :: u32
  med_bufferFull :: bool

definition MedianFilter_new :: "u32 \<Rightarrow> MedianFilter" where
  "MedianFilter_new windowSize =
     (let w = (if windowSize = 0 then 1 else windowSize)
      in \<lparr> med_windowSize = w, med_buffer = replicate (unat w) 0, med_index = 0,
           med_bufferFull = False \<rparr>)"

text \<open>
  \<^verbatim>\<open>MedianFilter::calculateMedian\<close>: copy the whole buffer when it has filled, else its first
  \<^verbatim>\<open>m_index\<close> slots; sort the copy; return the middle element, or the mean of the two
  middle elements when the copy has even length. \<^verbatim>\<open>std::sort\<close> on a totally ordered type
  is \<open>sort\<close>.
\<close>

definition calculateMedian :: "MedianFilter \<Rightarrow> real" where
  "calculateMedian f =
     (let sortBuffer = (if med_bufferFull f then med_buffer f
                        else take (unat (med_index f)) (med_buffer f))
      in if sortBuffer = [] then 0
         else let sorted' = sort sortBuffer; sz = length sorted'
              in if sz mod 2 = 0 then (sorted' ! (sz div 2 - 1) + sorted' ! (sz div 2)) / 2
                 else sorted' ! (sz div 2))"

definition med_process :: "MedianFilter \<Rightarrow> real \<Rightarrow> real \<times> MedianFilter" where
  "med_process f input =
     (let buf = (med_buffer f)[unat (med_index f) := input];
          idx = (med_index f + 1) mod med_windowSize f;
          full = (if idx = 0 then True else med_bufferFull f);
          f' = f\<lparr>med_buffer := buf, med_index := idx, med_bufferFull := full\<rparr>
      in (calculateMedian f', f'))"

definition med_reset :: "MedianFilter \<Rightarrow> MedianFilter" where
  "med_reset f = f\<lparr>med_buffer := replicate (length (med_buffer f)) 0, med_index := 0,
                   med_bufferFull := False\<rparr>"

definition med_getOrder :: "MedianFilter \<Rightarrow> u32" where
  "med_getOrder f = med_windowSize f"

subsection \<open>The vector overload of \<^verbatim>\<open>process\<close>\<close>

text \<open>
  Every filter class implements \<^verbatim>\<open>process(const std::vector<T>&)\<close> by the same loop:
  call the scalar \<^verbatim>\<open>process\<close> on each sample in order, on the same object.
\<close>

fun process_vec :: "('f \<Rightarrow> real \<Rightarrow> real \<times> 'f) \<Rightarrow> 'f \<Rightarrow> real list \<Rightarrow> real list \<times> 'f" where
  "process_vec step f [] = ([], f)"
| "process_vec step f (x # xs) =
     (let (y, f') = step f x; (ys, f'') = process_vec step f' xs in (y # ys, f''))"

subsection \<open>KalmanFilter\<close>

record KalmanFilter =
  k_processNoise :: real
  k_measurementNoise :: real
  k_estimate :: real
  k_covariance :: real
  k_initialEstimate :: real
  k_initialCovariance :: real

definition KalmanFilter_new :: "real \<Rightarrow> real \<Rightarrow> real \<Rightarrow> real \<Rightarrow> KalmanFilter" where
  "KalmanFilter_new processNoise measurementNoise initialEstimate initialCovariance =
     \<lparr> k_processNoise = processNoise, k_measurementNoise = measurementNoise,
       k_estimate = initialEstimate, k_covariance = initialCovariance,
       k_initialEstimate = initialEstimate, k_initialCovariance = initialCovariance \<rparr>"

text \<open>\<^verbatim>\<open>KalmanFilter::update\<close>: predict the covariance, compute the gain, correct.\<close>

definition update :: "KalmanFilter \<Rightarrow> real \<Rightarrow> real \<times> KalmanFilter" where
  "update f measurement =
     (let cov1 = k_covariance f + k_processNoise f;
          kalmanGain = cov1 / (cov1 + k_measurementNoise f);
          est = k_estimate f + kalmanGain * (measurement - k_estimate f);
          cov2 = (1 - kalmanGain) * cov1
      in (est, f\<lparr>k_estimate := est, k_covariance := cov2\<rparr>))"

definition getEstimate :: "KalmanFilter \<Rightarrow> real" where
  "getEstimate f = k_estimate f"

definition getCovariance :: "KalmanFilter \<Rightarrow> real" where
  "getCovariance f = k_covariance f"

text \<open>The filter after \<open>n\<close> calls of \<open>update\<close> with the same measurement \<open>c\<close>.\<close>

primrec feed :: "KalmanFilter \<Rightarrow> real \<Rightarrow> nat \<Rightarrow> KalmanFilter" where
  "feed f c 0 = f"
| "feed f c (Suc n) = snd (update (feed f c n) c)"

subsection \<open>The filter interface\<close>

text \<open>
  The classes derived from \<^verbatim>\<open>Filter<T>\<close> in this repository, as a closed sum; the virtual
  calls dispatch on the constructor. \<open>rnd\<close> is the rounding of the sample type \<^verbatim>\<open>T\<close>, handed
  to the moving-average filter.
\<close>

datatype Filter =
    LowPass LowPassFilter
  | HighPass HighPassFilter
  | BandPass BandPassFilter
  | MovingAverage MovingAverageFilter
  | Median MedianFilter

fun Filter_process :: "(real \<Rightarrow> real) \<Rightarrow> Filter \<Rightarrow> real \<Rightarrow> real \<times> Filter"
  where
  "Filter_process rnd (LowPass f) x = (let (y, f') = lp_process f x in (y, LowPass f'))"
| "Filter_process rnd (HighPass f) x = (let (y, f') = hp_process f x in (y, HighPass f'))"
| "Filter_process rnd (BandPass f) x = (let (y, f') = bp_process f x in (y, BandPass f'))"
| "Filter_process rnd (MovingAverage f) x =
     (let (y, f') = ma_process rnd f x in (y, MovingAverage f'))"
| "Filter_process rnd (Median f) x = (let (y, f') = med_process f x in (y, Median f'))"

fun Filter_reset :: "Filter \<Rightarrow> Filter" where
  "Filter_reset (LowPass f) = LowPass (lp_reset f)"
| "Filter_reset (HighPass f) = HighPass (hp_reset f)"
| "Filter_reset (BandPass f) = BandPass (bp_reset f)"
| "Filter_reset (MovingAverage f) = MovingAverage (ma_reset f)"
| "Filter_reset (Median f) = Median (med_reset f)"

fun Filter_getOrder :: "Filter \<Rightarrow> u32" where
  "Filter_getOrder (LowPass f) = lp_getOrder f"
| "Filter_getOrder (HighPass f) = hp_getOrder f"
| "Filter_getOrder (BandPass f) = bp_getOrder f"
| "Filter_getOrder (MovingAverage f) = ma_getOrder f"
| "Filter_getOrder (Median f) = med_getOrder f"

section \<open>Streaming pipeline: RealTimeProcessor\<close>

text \<open>
  The chain holds \<^verbatim>\<open>shared_ptr<Filter<T>>\<close>: a filter object may be in the chain more than
  once and may be held elsewhere. Filter objects therefore live in a store, and the chain is
  a list of addresses. A null pointer is \<open>None\<close>.
\<close>

type_synonym addr = nat
type_synonym store = "addr \<Rightarrow> Filter"

record RealTimeProcessor =
  m_bufferSize :: u32
  m_sampleRate :: real
  m_filters :: "addr list"
  m_latency :: u32

definition RealTimeProcessor_new :: "u32 \<Rightarrow> real \<Rightarrow> RealTimeProcessor" where
  "RealTimeProcessor_new bufferSize sampleRate =
     \<lparr> m_bufferSize = bufferSize, m_sampleRate = sampleRate, m_filters = [], m_latency = 0 \<rparr>"

definition addFilter :: "store \<Rightarrow> RealTimeProcessor \<Rightarrow> addr option \<Rightarrow> unit Result \<times> RealTimeProcessor"
  where
  "addFilter h p fltr =
     (case fltr of
        None \<Rightarrow> (Inl InvalidArgument, p)
      | Some a \<Rightarrow> (Inr (), p\<lparr>m_filters := m_filters p @ [a],
                               m_latency := m_latency p + Filter_getOrder (h a)\<rparr>))"

definition clearFilters :: "RealTimeProcessor \<Rightarrow> RealTimeProcessor" where
  "clearFilters p = p\<lparr>m_filters := [], m_latency := 0\<rparr>"

text \<open>The loop of \<^verbatim>\<open>processSample\<close> over the chain, threading the sample and the store.\<close>

fun process_chain ::
  "(real \<Rightarrow> real) \<Rightarrow> addr list \<Rightarrow> store \<Rightarrow> real \<Rightarrow> real \<times> store" where
  "process_chain rnd [] h x = (x, h)"
| "process_chain rnd (a # as) h x =
     (let (y, f') = Filter_process rnd (h a) x in process_chain rnd as (h(a := f')) y)"

definition processSample ::
  "(real \<Rightarrow> real) \<Rightarrow> store \<Rightarrow> RealTimeProcessor \<Rightarrow> real \<Rightarrow> real \<times> store" where
  "processSample rnd h p input = process_chain rnd (m_filters p) h input"

fun processBuffer ::
  "(real \<Rightarrow> real) \<Rightarrow> store \<Rightarrow> RealTimeProcessor \<Rightarrow> real list \<Rightarrow> real list \<times> store"
  where
  "processBuffer rnd h p [] = ([], h)"
| "processBuffer rnd h p (x # xs) =
     (let (y, h') = processSample rnd h p x; (ys, h'') = processBuffer rnd h' p xs
      in (y # ys, h''))"

fun reset_chain :: "addr list \<Rightarrow> store \<Rightarrow> store" where
  "reset_chain [] h = h"
| "reset_chain (a # as) h = reset_chain as (h(a := Filter_reset (h a)))"

definition reset :: "store \<Rightarrow> RealTimeProcessor \<Rightarrow> store" where
  "reset h p = reset_chain (m_filters p) h"

definition getLatency :: "RealTimeProcessor \<Rightarrow> u32" where
  "getLatency p = m_latency p"

text \<open>The calls a client can make on a processor, and their effect on store and processor.\<close>

datatype call =
    AddFilter "addr option"
  | ClearFilters
  | ProcessSample real
  | ProcessBuffer "real list"
  | Reset

fun exec ::
  "(real \<Rightarrow> real) \<Rightarrow> store \<times> RealTimeProcessor \<Rightarrow> call \<Rightarrow> store \<times> RealTimeProcessor"
  where
  "exec rnd (h, p) (AddFilter fltr) = (h, snd (addFilter h p fltr))"
| "exec rnd (h, p) ClearFilters = (h, clearFilters p)"
| "exec rnd (h, p) (ProcessSample x) = (snd (processSample rnd h p x), p)"
| "exec rnd (h, p) (ProcessBuffer xs) = (snd (processBuffer rnd h p xs), p)"
| "exec rnd (h, p) Reset = (reset h p, p)"

text \<open>The sum of the declared orders over the chain, in \<^verbatim>\<open>uint32_t\<close> arithmetic.\<close>

definition chain_order :: "store \<Rightarrow> addr list \<Rightarrow> u32" where
  "chain_order h as = sum_list (map (\<lambda>a. Filter_getOrder (h a)) as)"

text \<open>The invariant: the tracked latency is the sum of the orders over the chain.\<close>

definition latency_inv :: "store \<times> RealTimeProcessor \<Rightarrow> bool" where
  "latency_inv s \<longleftrightarrow> getLatency (snd s) = chain_order (fst s) (m_filters (snd s))"

section \<open>Specification of the windowed filters\<close>

text \<open>The last \<open>n\<close> elements of a list (all of it when it is shorter).\<close>

definition lastn :: "nat \<Rightarrow> 'a list \<Rightarrow> 'a list" where
  "lastn n xs = drop (length xs - n) xs"

text \<open>
  The circular buffer of the two windowed filters after the inputs \<open>xs\<close>: read from the
  write index onwards and wrapped around, it holds the last \<open>w\<close> elements of the inputs
  preceded by \<open>w\<close> zeros; the write index is the number of inputs modulo \<open>w\<close>.
\<close>

definition ring_inv :: "nat \<Rightarrow> real list \<Rightarrow> nat \<Rightarrow> real list \<Rightarrow> bool" where
  "ring_inv w buf idx xs \<longleftrightarrow>
     (\<exists>A B. buf = B @ A \<and> drop (length xs) (replicate w 0 @ xs) = A @ B
        \<and> length B = idx \<and> idx < w \<and> idx = length xs mod w)"




text \<open>
  The median as the specification words it: sort, then take the middle element, or the mean
  of the two middle elements when the number of elements is even.
\<close>

definition median_of :: "real list \<Rightarrow> real" where
  "median_of ys =
     (let s = sort ys; n = length ys
      in if n mod 2 = 0 then (s ! (n div 2 - 1) + s ! (n div 2)) / 2 else s ! (n div 2))"

text \<open>State invariant of a median filter of window \<open>W\<close> after the inputs \<open>xs\<close>.\<close>

definition med_inv :: "u32 \<Rightarrow> MedianFilter \<Rightarrow> real list \<Rightarrow> bool" where
  "med_inv W f xs \<longleftrightarrow>
     med_windowSize f = W
     \<and> ring_inv (unat W) (med_buffer f) (unat (med_index f)) xs
     \<and> (med_bufferFull f \<longleftrightarrow> unat W \<le> length xs)"

section \<open>FFT results and spectral analysis\<close>

text \<open>\<^verbatim>\<open>WindowType\<close> of \<^verbatim>\<open>fft.h\<close>; \<open>None'\<close> is \<^verbatim>\<open>WindowType::None\<close>.\<close>

datatype WindowType = None' | Hanning | Hamming | Blackman | Kaiser | Gaussian | Tukey

text \<open>\<^verbatim>\<open>FFTResult<T>\<close>; the field \<^verbatim>\<open>size\<close> is \<open>fftSize\<close> here.\<close>

record FFTResult =
  data :: "complex list"
  sampleRate :: real
  frequencyResolution :: real
  fftSize :: u32
  windowUsed :: WindowType

definition getMagnitude :: "FFTResult \<Rightarrow> real list" where
  "getMagnitude r = map cmod (data r)"

text \<open>
  \<^verbatim>\<open>getFrequencyBins\<close> counts with a \<^verbatim>\<open>uint32_t\<close> against \<^verbatim>\<open>data.size()\<close>: with
  \<open>2^32\<close> or more elements the counter wraps before it reaches the size and the loop
  does not return, which is \<open>None\<close>.
\<close>

definition getFrequencyBins :: "FFTResult \<Rightarrow> real list option" where
  "getFrequencyBins r =
     (if length (data r) < 2 ^ 32
      then Some (map (\<lambda>i. real i * frequencyResolution r) [0..<length (data r)])
      else None)"

text \<open>
  The scan of \<^verbatim>\<open>findPeakFrequency\<close> over magnitudes and frequencies in step, carrying
  \<^verbatim>\<open>peakFreq\<close> and \<^verbatim>\<open>peakMagnitude\<close>; it ends with the shorter list.
\<close>

fun peak_scan :: "real list \<Rightarrow> real list \<Rightarrow> real \<Rightarrow> real \<Rightarrow> real \<times> real \<Rightarrow> real \<times> real" where
  "peak_scan (m # ms) (f # fs) minFreq maxFreq (peakFreq, peakMagnitude) =
     peak_scan ms fs minFreq maxFreq
       (if f \<ge> minFreq \<and> f \<le> maxFreq
        then (if m > peakMagnitude then (f, m) else (peakFreq, peakMagnitude))
        else (peakFreq, peakMagnitude))"
| "peak_scan [] fs minFreq maxFreq acc = acc"
| "peak_scan ms [] minFreq maxFreq acc = acc"

definition findPeakFrequency :: "FFTResult \<Rightarrow> real \<Rightarrow> real \<Rightarrow> real Result option" where
  "findPeakFrequency fftResult minFreq maxFreq =
     (if data fftResult = [] then Some (Inl InvalidArgument)
      else case getFrequencyBins fftResult of
             None \<Rightarrow> None
           | Some frequencies \<Rightarrow>
               let magnitude = getMagnitude fftResult;
                   maxFreq' = (if maxFreq < 0 then sampleRate fftResult / 2 else maxFreq);
                   (peakFreq, peakMagnitude) =
                      peak_scan magnitude frequencies minFreq maxFreq' (0, 0)
               in Some (if peakMagnitude = 0 then Inl DataError else Inr peakFreq))"

text \<open>Specification side: frequency and magnitude of bin \<open>i\<close>, and the bins of the band.\<close>

definition bin_freq :: "FFTResult \<Rightarrow> nat \<Rightarrow> real" where
  "bin_freq r i = real i * frequencyResolution r"

definition bin_mag :: "FFTResult \<Rightarrow> nat \<Rightarrow> real" where
  "bin_mag r i = cmod (data r ! i)"

definition in_band :: "FFTResult \<Rightarrow> real \<Rightarrow> real \<Rightarrow> nat \<Rightarrow> bool" where
  "in_band r minFreq maxFreq i \<longleftrightarrow>
     i < length (data r) \<and> minFreq \<le> bin_freq r i
     \<and> bin_freq r i \<le> (if maxFreq < 0 then sampleRate r / 2 else maxFreq)"

section \<open>Steady state of the Kalman filter\<close>

text \<open>
  The steady-state covariance of the scalar filter: the positive root of
  \<open>P\<^sup>2 + Q P = Q R\<close>, the fixed point of one \<open>update\<close> on the covariance.
\<close>

definition steady_cov :: "real \<Rightarrow> real \<Rightarrow> real" where
  "steady_cov Q R = (sqrt (Q\<^sup>2 + 4 * Q * R) - Q) / 2"

section \<open>FFT engine\<close>

text \<open>\<^verbatim>\<open>FFT::zeroPad\<close>: copy, then \<^verbatim>\<open>resize(targetSize, 0)\<close>, which truncates a longer signal.\<close>

definition zeroPad :: "real list \<Rightarrow> u32 \<Rightarrow> real list" where
  "zeroPad signal targetSize =
     take (unat targetSize) signal @ replicate (unat targetSize - length signal) 0"

text \<open>
  \<^verbatim>\<open>FFT::generateWindow\<close>. The loop index and \<^verbatim>\<open>size - 1\<close> are \<^verbatim>\<open>uint32_t\<close>; a zero
  \<^verbatim>\<open>parameter\<close> selects the default of the Kaiser, Gaussian and Tukey windows.
\<close>

definition window_coeff :: "WindowType \<Rightarrow> real \<Rightarrow> u32 \<Rightarrow> nat \<Rightarrow> real" where
  "window_coeff window parameter sz i =
     (let d = real (unat (sz - 1)) in
      case window of
        None' \<Rightarrow> 1
      | Hanning \<Rightarrow> 0.5 * (1 - cos (2 * pi * real i / d))
      | Hamming \<Rightarrow> 0.54 - 0.46 * cos (2 * pi * real i / d)
      | Blackman \<Rightarrow>
          (let n = real i / d in 0.42 - 0.5 * cos (2 * pi * n) + 0.08 * cos (4 * pi * n))
      | Kaiser \<Rightarrow>
          (let p = (if parameter = 0 then 5 else parameter);
               n = real i / d;
               arg = p * sqrt (1 - (2 * n - 1) * (2 * n - 1))
           in exp arg / exp p)
      | Gaussian \<Rightarrow>
          (let p = (if parameter = 0 then 0.4 else parameter);
               n = (real i - d / 2) / (d / 2)
           in exp (- 0.5 * (n / p) * (n / p)))
      | Tukey \<Rightarrow>
          (let p = (if parameter = 0 then 0.5 else parameter);
               n = real i / d
           in if n < p / 2 then 0.5 * (1 + cos (pi * (2 * n / p - 1)))
              else if n > 1 - p / 2 then 0.5 * (1 + cos (pi * (2 * n / p - 2 / p + 1)))
              else 1))"

definition generateWindow :: "u32 \<Rightarrow> WindowType \<Rightarrow> real \<Rightarrow> real list" where
  "generateWindow sz window parameter = map (window_coeff window parameter sz) [0..<unat sz]"

text \<open>\<^verbatim>\<open>FFT::applyWindow\<close>.\<close>

definition applyWindow :: "real list \<Rightarrow> WindowType \<Rightarrow> real \<Rightarrow> real list" where
  "applyWindow signal window parameter =
     map2 (*) signal (generateWindow (of_nat (length signal)) window parameter)"

text \<open>
  \<^verbatim>\<open>FFT::bitReverse\<close>. The inner \<^verbatim>\<open>while (j & bit)\<close> loop clears the set bits of \<open>j\<close> from
  the top; it ends at the latest when \<open>bit\<close> has been shifted to \<open>0\<close>.
\<close>

function bitReverse_carry :: "u32 \<Rightarrow> u32 \<Rightarrow> u32 \<times> u32" where
  "bitReverse_carry j bit' =
     (if j AND bit' \<noteq> 0 then bitReverse_carry (j XOR bit') (drop_bit 1 bit') else (j, bit'))"
  by pat_completeness auto
termination
proof (relation "measure (\<lambda>(j, b). unat b)")
  show "wf (measure (\<lambda>(j, b). unat b))" by simp
next
  fix j bit' :: u32
  assume "j AND bit' \<noteq> 0"
  then have "bit' \<noteq> 0" by auto
  then have pos: "0 < unat bit'" by (simp add: unat_gt_0)
  have "unat (drop_bit 1 bit') = drop_bit 1 (unat bit')" by (rule unat_drop_bit_eq)
  also have "\<dots> = unat bit' div 2" by (simp only: drop_bit_eq_div power_one_right)
  also have "\<dots> < unat bit'" using pos by simp
  finally have "unat (drop_bit 1 bit') < unat bit'" .
  then show "((j XOR bit', drop_bit 1 bit'), (j, bit')) \<in> measure (\<lambda>(j, b). unat b)" by simp
qed

declare bitReverse_carry.simps [simp del]

text \<open>
  One round of the \<^verbatim>\<open>for (i = 1; i < n; ++i)\<close> loop: advance the reversed counter \<open>j\<close>
  and swap elements \<open>i\<close> and \<open>j\<close> when \<open>i < j\<close>. For a power of two \<open>n\<close> the counter stays
  below \<open>n\<close>, so both indices are in range.
\<close>

definition bitReverse_step :: "u32 \<Rightarrow> nat \<Rightarrow> u32 \<times> complex list \<Rightarrow> u32 \<times> complex list" where
  "bitReverse_step n i s =
     (let (j, dat) = s;
          (j1, bit1) = bitReverse_carry j (drop_bit 1 n);
          j2 = j1 XOR bit1
      in (j2, if i < unat j2 then dat[i := dat ! unat j2, unat j2 := dat ! i] else dat))"

definition bitReverse :: "complex list \<Rightarrow> complex list" where
  "bitReverse dat =
     (let n = (of_nat (length dat) :: u32)
      in snd (fold (bitReverse_step n) [1..<unat n] (0, dat)))"

text \<open>
  The innermost loop of \<^verbatim>\<open>radix2FFT\<close>: the butterflies of the block that starts at \<open>i\<close>,
  for \<open>j = 0 .. len/2 - 1\<close>, with the running twiddle factor \<open>w\<close>.
  For a power of two \<open>n\<close>, a block length \<open>len\<close> that divides it and a block start
  \<open>i < n\<close> that is a multiple of \<open>len\<close>, both indices stay below \<open>n\<close>, so the
  \<^verbatim>\<open>uint32_t\<close> index sums do not wrap.
\<close>

definition butterfly :: "u32 \<Rightarrow> complex \<Rightarrow> u32 \<Rightarrow> nat \<Rightarrow> complex \<times> complex list \<Rightarrow> complex \<times> complex list"
  where
  "butterfly len wlen i j s =
     (let (w, dat) = s;
          lo = unat i + j;
          hi = unat i + j + unat (len div 2);
          u = dat ! lo;
          v = dat ! hi * w
      in (w * wlen, dat[lo := u + v, hi := u - v]))"

definition butterflies :: "u32 \<Rightarrow> complex \<Rightarrow> u32 \<Rightarrow> complex list \<Rightarrow> complex list" where
  "butterflies len wlen i dat = snd (fold (butterfly len wlen i) [0..<unat (len div 2)] (1, dat))"

text \<open>
  The loop \<^verbatim>\<open>for (i = 0; i < n; i += len)\<close> over the blocks of one stage, and the loop
  \<^verbatim>\<open>for (len = 2; len <= n; len <<= 1)\<close> over the stages. Both counters are
  \<^verbatim>\<open>uint32_t\<close> and wrap; a loop that does not end is \<open>None\<close>.
\<close>

partial_function (option) fft_blocks ::
  "u32 \<Rightarrow> u32 \<Rightarrow> complex \<Rightarrow> u32 \<Rightarrow> complex list \<Rightarrow> complex list option" where
  "fft_blocks n len wlen i dat =
     (if i < n then fft_blocks n len wlen (i + len) (butterflies len wlen i dat)
      else Some dat)"

definition twiddle :: "bool \<Rightarrow> u32 \<Rightarrow> complex" where
  "twiddle inverse' len =
     (let angle = (if inverse' then 2 else - 2) * pi / real (unat len)
      in Complex (cos angle) (sin angle))"

partial_function (option) fft_stages ::
  "bool \<Rightarrow> u32 \<Rightarrow> u32 \<Rightarrow> complex list \<Rightarrow> complex list option" where
  "fft_stages inverse' n len dat =
     (if len \<le> n
      then Option.bind (fft_blocks n len (twiddle inverse' len) 0 dat)
             (\<lambda>d. fft_stages inverse' n (push_bit 1 len) d)
      else Some dat)"

text \<open>
  \<^verbatim>\<open>FFT::radix2FFT\<close>: on a size that is not a power of two it logs an error and returns with
  the dat untouched; otherwise bit reversal, the stages, and the \<open>1/n\<close> scaling of the
  inverse transform.
\<close>

definition radix2FFT :: "complex list \<Rightarrow> bool \<Rightarrow> complex list option" where
  "radix2FFT dat inverse' =
     (let n = (of_nat (length dat) :: u32)
      in if \<not> isValidSize n then Some dat
         else Option.bind (fft_stages inverse' n 2 (bitReverse dat))
                (\<lambda>d. Some (if inverse'
                             then map (\<lambda>sample. sample * complex_of_real (1 / real (unat n))) d
                             else d)))"

text \<open>\<^verbatim>\<open>FFT::forward\<close> on a real signal.\<close>

definition forward :: "real list \<Rightarrow> real \<Rightarrow> WindowType \<Rightarrow> FFTResult Result option" where
  "forward input sampleRate' window =
     (if input = [] then Some (Inl InvalidArgument)
      else let fftSize' = nextPowerOf2 (of_nat (length input));
               paddedInput = zeroPad input fftSize';
               windowed = (if window \<noteq> None'
                           then map2 (*) paddedInput (generateWindow fftSize' window 0)
                           else paddedInput);
               complexData = map (\<lambda>sample. Complex sample 0) windowed
           in Option.bind (radix2FFT complexData False)
                (\<lambda>d. Some (Inr \<lparr> data = d, sampleRate = sampleRate',
                                   frequencyResolution = sampleRate' / real (unat fftSize'),
                                   fftSize = fftSize', windowUsed = window \<rparr>)))"

text \<open>\<^verbatim>\<open>FFT::forward\<close> on a complex signal.\<close>

definition forward_complex :: "complex list \<Rightarrow> real \<Rightarrow> WindowType \<Rightarrow> FFTResult Result option" where
  "forward_complex input sampleRate' window =
     (if input = [] then Some (Inl InvalidArgument)
      else let fftSize' = nextPowerOf2 (of_nat (length input));
               paddedInput = take (unat fftSize') input
                               @ replicate (unat fftSize' - length input) 0;
               windowed = (if window \<noteq> None'
                           then map2 (\<lambda>s c. s * complex_of_real c) paddedInput
                                  (generateWindow fftSize' window 0)
                           else paddedInput)
           in Option.bind (radix2FFT windowed False)
                (\<lambda>d. Some (Inr \<lparr> data = d, sampleRate = sampleRate',
                                   frequencyResolution = sampleRate' / real (unat fftSize'),
                                   fftSize = fftSize', windowUsed = window \<rparr>)))"

text \<open>\<^verbatim>\<open>FFT::inverse\<close> and \<^verbatim>\<open>FFT::inverseComplex\<close>: copy the input and transform the copy.\<close>

definition inverse_fft :: "complex list \<Rightarrow> real list Result option" where
  "inverse_fft input =
     (if input = [] then Some (Inl InvalidArgument)
      else Option.bind (radix2FFT input True) (\<lambda>d. Some (Inr (map Re d))))"

definition inverseComplex :: "complex list \<Rightarrow> complex list Result option" where
  "inverseComplex input =
     (if input = [] then Some (Inl InvalidArgument)
      else Option.bind (radix2FFT input True) (\<lambda>d. Some (Inr d)))"

section \<open>Streaming pipeline: RealTimeFFT\<close>

text \<open>
  Modelled from the spec: \<^verbatim>\<open>RealTimeFFT\<close> is declared in \<^verbatim>\<open>fft.h\<close>, but its constructor,
  \<^verbatim>\<open>processSamples\<close> and \<^verbatim>\<open>reset\<close> are not among the sources. The state keeps the
  configuration, the samples buffered so far, the cached window coefficients and the hop
  size; sizes are natural numbers.
\<close>

record RealTimeFFT =
  rt_fftSize :: nat
  rt_sampleRate :: real
  rt_overlapFactor :: real
  rt_window :: WindowType
  rt_buffer :: "real list"
  rt_windowCoeffs :: "real list"
  rt_hopSize :: nat

text \<open>
  Modelled from the spec: the constructor of \<^verbatim>\<open>RealTimeFFT\<close>. The hop size is
  \<open>fftSize * (1 - overlapFactor)\<close> rounded to an integer, and at least 1; the window
  coefficients are generated once.
\<close>

definition RealTimeFFT_new :: "nat \<Rightarrow> real \<Rightarrow> real \<Rightarrow> WindowType \<Rightarrow> RealTimeFFT" where
  "RealTimeFFT_new fftSize' sampleRate' overlapFactor window =
     \<lparr> rt_fftSize = fftSize', rt_sampleRate = sampleRate', rt_overlapFactor = overlapFactor,
       rt_window = window, rt_buffer = [],
       rt_windowCoeffs = generateWindow (of_nat fftSize') window 0,
       rt_hopSize = max 1 (nat (round (real fftSize' * (1 - overlapFactor)))) \<rparr>"

text \<open>
  Modelled from the spec: the loop of \<^verbatim>\<open>RealTimeFFT::processSamples\<close>. While the buffer
  holds a full window: multiply the oldest \<open>fftSize\<close> samples by the cached coefficients,
  run \<open>forward\<close> on them, emit the result, discard the oldest \<open>hopSize\<close> samples.
\<close>

partial_function (option) rt_loop ::
  "nat \<Rightarrow> nat \<Rightarrow> real \<Rightarrow> real list \<Rightarrow> real list \<Rightarrow> FFTResult list
     \<Rightarrow> (FFTResult list \<times> real list) option" where
  "rt_loop N hop sr coeffs buf acc =
     (if N \<le> length buf
      then Option.bind (forward (map2 (*) (take N buf) coeffs) sr None')
             (\<lambda>res. case res of
                       Inl e \<Rightarrow> rt_loop N hop sr coeffs (drop hop buf) acc
                     | Inr r \<Rightarrow> rt_loop N hop sr coeffs (drop hop buf) (acc @ [r]))
      else Some (acc, buf))"

text \<open>
  Modelled from the spec: \<^verbatim>\<open>RealTimeFFT::processSamples\<close>, which is not among the sources.
  It appends the batch to the buffered samples, runs the loop, and keeps what the loop left.
\<close>

definition processSamples ::
  "RealTimeFFT \<Rightarrow> real list \<Rightarrow> (FFTResult list \<times> RealTimeFFT) option" where
  "processSamples s samples =
     Option.bind
       (rt_loop (rt_fftSize s) (rt_hopSize s) (rt_sampleRate s) (rt_windowCoeffs s)
          (rt_buffer s @ samples) [])
       (\<lambda>(results, buf). Some (results, s\<lparr>rt_buffer := buf\<rparr>))"

text \<open>
  Modelled from the spec: \<^verbatim>\<open>RealTimeFFT::reset\<close>, which is not among the sources. It clears
  the buffer and keeps the cached coefficients.
\<close>

definition rt_reset :: "RealTimeFFT \<Rightarrow> RealTimeFFT" where
  "rt_reset s = s\<lparr>rt_buffer := []\<rparr>"

text \<open>The number of full windows in a buffer of \<open>len\<close> samples, for size \<open>N\<close> and hop \<open>h\<close>.\<close>

definition frame_count :: "nat \<Rightarrow> nat \<Rightarrow> nat \<Rightarrow> nat" where
  "frame_count N h len = (if len < N then 0 else (len - N) div h + 1)"

section \<open>Proofs: power-of-two helpers\<close>

lemma smear_step:
  fixes x m :: "'a::len word"
  assumes "\<And>i. bit x i \<longleftrightarrow> (\<exists>d<k. bit m (i + d))"
  shows "bit (x OR drop_bit k x) i \<longleftrightarrow> (\<exists>d<2*k. bit m (i + d))"
proof -
  have "bit (x OR drop_bit k x) i \<longleftrightarrow> bit x i \<or> bit x (k + i)"
    by (simp add: bit_or_iff bit_drop_bit_eq)
  also have "\<dots> \<longleftrightarrow> (\<exists>d<k. bit m (i + d)) \<or> (\<exists>d<k. bit m (k + i + d))"
    by (simp add: assms)
  also have "\<dots> \<longleftrightarrow> (\<exists>d<2*k. bit m (i + d))"
  proof
    assume "(\<exists>d<k. bit m (i + d)) \<or> (\<exists>d<k. bit m (k + i + d))"
    then show "\<exists>d<2*k. bit m (i + d)"
    proof
      assume "\<exists>d<k. bit m (i + d)"
      then obtain d where "d < k" "bit m (i + d)" by blast
      then show ?thesis by (intro exI[of _ d]) simp
    next
      assume "\<exists>d<k. bit m (k + i + d)"
      then obtain d where "d < k" "bit m (k + i + d)" by blast
      then show ?thesis by (intro exI[of _ "k + d"]) (simp add: ac_simps)
    qed
  next
    assume "\<exists>d<2*k. bit m (i + d)"
    then obtain d where d: "d < 2*k" "bit m (i + d)" by blast
    show "(\<exists>d<k. bit m (i + d)) \<or> (\<exists>d<k. bit m (k + i + d))"
    proof (cases "d < k")
      case True with d show ?thesis by blast
    next
      case False
      with d have "d - k < k" "bit m (k + i + (d - k))" by (simp_all add: ac_simps)
      then show ?thesis by blast
    qed
  qed
  finally show ?thesis .
qed

lemma bit_smear32: "bit (smear32 m) i \<longleftrightarrow> (\<exists>d<32. bit m (i + d))"
proof -
  define n2 where "n2 = m OR drop_bit 1 m"
  define n3 where "n3 = n2 OR drop_bit 2 n2"
  define n4 where "n4 = n3 OR drop_bit 4 n3"
  define n5 where "n5 = n4 OR drop_bit 8 n4"
  have b1: "\<And>i. bit m i \<longleftrightarrow> (\<exists>d<1. bit m (i + d))" by simp
  have b2: "\<And>i. bit n2 i \<longleftrightarrow> (\<exists>d<2. bit m (i + d))"
    unfolding n2_def using smear_step[of m 1 m, OF b1] by simp
  have b3: "\<And>i. bit n3 i \<longleftrightarrow> (\<exists>d<4. bit m (i + d))"
    unfolding n3_def using smear_step[of n2 2 m, OF b2] by simp
  have b4: "\<And>i. bit n4 i \<longleftrightarrow> (\<exists>d<8. bit m (i + d))"
    unfolding n4_def using smear_step[of n3 4 m, OF b3] by simp
  have b5: "\<And>i. bit n5 i \<longleftrightarrow> (\<exists>d<16. bit m (i + d))"
    unfolding n5_def using smear_step[of n4 8 m, OF b4] by simp
  have "bit (n5 OR drop_bit 16 n5) i \<longleftrightarrow> (\<exists>d<32. bit m (i + d))"
    using smear_step[of n5 16 m, OF b5] by simp
  then show ?thesis
    by (simp add: smear32_def Let_def n2_def n3_def n4_def n5_def)
qed

lemma bit_nat_imp_ge: "bit (M::nat) j \<Longrightarrow> 2 ^ j \<le> M"
  by (rule ccontr) (simp add: bit_nat_def not_le)

lemma bit_nat_top: "2 ^ j \<le> (M::nat) \<Longrightarrow> M < 2 ^ Suc j \<Longrightarrow> bit M j"
proof -
  assume a: "2 ^ j \<le> M" "M < 2 ^ Suc j"
  have "M div 2 ^ j < 2" using a by (simp add: less_mult_imp_div_less mult.commute)
  moreover have "0 < M div 2 ^ j" using a by (simp add: div_greater_zero_iff)
  ultimately have "M div 2 ^ j = 1" by simp
  then show ?thesis by (simp add: bit_nat_def)
qed

lemma bit_word_imp_ge: "bit (m::u32) j \<Longrightarrow> 2 ^ j \<le> unat m"
  by (rule bit_nat_imp_ge) (simp add: bit_unsigned_iff)

lemma bit_word_top: "2 ^ j \<le> unat (m::u32) \<Longrightarrow> unat m < 2 ^ Suc j \<Longrightarrow> bit m j"
  using bit_nat_top[of j "unat m"] by (simp add: bit_unsigned_iff)

lemma smear32_mask:
  assumes lo: "k = 0 \<or> 2 ^ (k - 1) \<le> unat m" and hi: "unat m < 2 ^ k" and k: "k \<le> 32"
  shows "smear32 m = mask k"
proof (rule bit_eqI)
  fix i
  show "bit (smear32 m) i \<longleftrightarrow> bit (mask k :: u32) i"
  proof
    assume "bit (smear32 m) i"
    then obtain d where "bit m (i + d)" by (auto simp: bit_smear32)
    then have "2 ^ (i + d) \<le> unat m" by (rule bit_word_imp_ge)
    then have "(2::nat) ^ (i + d) < 2 ^ k" using hi by (rule le_less_trans)
    then have "i + d < k" by simp
    then show "bit (mask k :: u32) i" using k by (simp add: bit_mask_iff)
  next
    assume "bit (mask k :: u32) i"
    then have ik: "i < k" by (simp add: bit_mask_iff)
    then have "k \<noteq> 0" by simp
    with lo have "2 ^ (k - 1) \<le> unat m" by simp
    moreover have "unat m < 2 ^ Suc (k - 1)" using hi \<open>k \<noteq> 0\<close> by simp
    ultimately have "bit m (k - 1)" by (rule bit_word_top)
    moreover have "k - 1 = i + (k - 1 - i)" "k - 1 - i < 32" using ik k by simp_all
    ultimately show "bit (smear32 m) i" unfolding bit_smear32 by metis
  qed
qed

lemma nextPowerOf2_smear: "n \<noteq> 0 \<Longrightarrow> nextPowerOf2 n = smear32 (n - 1) + 1"
  by (simp add: nextPowerOf2_def smear32_def Let_def)

lemma ex_bitlen: "\<exists>k\<le>32. (k = 0 \<or> 2 ^ (k - 1) \<le> unat (m::u32)) \<and> unat m < 2 ^ k"
proof -
  define k where "k = (LEAST k. unat m < 2 ^ k)"
  have m32: "unat m < 2 ^ 32" using unsigned_less[of m] by simp
  have hi: "unat m < 2 ^ k" unfolding k_def by (rule LeastI[of _ 32]) (rule m32)
  have k32: "k \<le> 32" unfolding k_def by (rule Least_le) (rule m32)
  have "k = 0 \<or> 2 ^ (k - 1) \<le> unat m"
  proof (cases "k = 0")
    case False
    then have "k - 1 < k" by simp
    then have "\<not> unat m < 2 ^ (k - 1)" unfolding k_def by (rule not_less_Least)
    then show ?thesis by simp
  qed simp
  with hi k32 show ?thesis by blast
qed


lemma nextPowerOf2_bitlen:
  assumes n: "n \<noteq> 0"
    and lo: "k = 0 \<or> 2 ^ (k - 1) \<le> unat (n - 1)" and hi: "unat (n - 1) < 2 ^ k" and k: "k \<le> 32"
  shows "nextPowerOf2 n = 2 ^ k"
  using smear32_mask[OF lo hi k] n by (simp add: nextPowerOf2_smear inc_mask_eq_exp)

lemma unat_pow2_u32: "k < 32 \<Longrightarrow> unat ((2::u32) ^ k) = 2 ^ k"
proof -
  assume k: "k < 32"
  have "(2::u32) ^ k = of_nat (2 ^ k)" by simp
  then have "unat ((2::u32) ^ k) = (2 ^ k) mod 2 ^ LENGTH(32)"
    by (simp only: unat_of_nat)
  then have "unat ((2::u32) ^ k) = (2 ^ k) mod 2 ^ 32" by simp
  moreover have "(2::nat) ^ k < 2 ^ 32" using k by (intro power_strict_increasing) simp_all
  ultimately show ?thesis by (simp only: mod_less)
qed

lemma nextPowerOf2_least_pow2:
  assumes n: "n \<noteq> 0" and le: "unat n \<le> 2 ^ 31"
  shows "\<exists>k\<le>31. nextPowerOf2 n = 2 ^ k \<and> unat (nextPowerOf2 n) = 2 ^ k \<and> unat n \<le> 2 ^ k
           \<and> (\<forall>j. unat n \<le> 2 ^ j \<longrightarrow> k \<le> j)"
proof -
  obtain k where k: "k \<le> 32" "k = 0 \<or> 2 ^ (k - 1) \<le> unat (n - 1)" "unat (n - 1) < 2 ^ k"
    using ex_bitlen[of "n - 1"] by blast
  have un: "unat (n - 1) = unat n - 1" "0 < unat n"
    using n by (simp_all add: unat_minus_one unat_gt_0)
  have eq: "nextPowerOf2 n = 2 ^ k" using nextPowerOf2_bitlen[OF n k(2) k(3) k(1)] .
  have k31: "k \<le> 31"
  proof (rule ccontr)
    assume "\<not> k \<le> 31"
    with k(1) have "k = 32" by simp
    with k(2) have "2 ^ 31 \<le> unat (n - 1)" by simp
    with un le show False by simp
  qed
  have up: "unat n \<le> 2 ^ k" using k(3) un by simp
  have least: "\<forall>j. unat n \<le> 2 ^ j \<longrightarrow> k \<le> j"
  proof (intro allI impI)
    fix j assume "unat n \<le> 2 ^ j"
    show "k \<le> j"
    proof (cases "k = 0")
      case False
      with k(2) have "2 ^ (k - 1) \<le> unat n - 1" using un by simp
      with un have "(2::nat) ^ (k - 1) < unat n" by simp
      then have "(2::nat) ^ (k - 1) < 2 ^ j" using \<open>unat n \<le> 2 ^ j\<close> by (rule less_le_trans)
      then have "k - 1 < j" by simp
      with False show ?thesis by simp
    qed simp
  qed
  have "unat ((2::u32) ^ k) = 2 ^ k" using k31 by (intro unat_pow2_u32) simp
  with eq k31 up least show ?thesis by (intro exI[of _ k]) simp
qed

lemma nextPowerOf2_overflow:
  assumes gt: "2 ^ 31 < unat n"
  shows "nextPowerOf2 n = 0"
proof -
  have n: "n \<noteq> 0" using gt by (auto simp: unat_eq_0)
  have un: "unat (n - 1) = unat n - 1" using n by (simp add: unat_minus_one)
  have "unat n < 2 ^ 32" using unsigned_less[of n] by simp
  then have hi: "unat (n - 1) < 2 ^ 32" using un by simp
  have lo: "32 = (0::nat) \<or> 2 ^ (32 - 1) \<le> unat (n - 1)" using gt un by simp
  show ?thesis using nextPowerOf2_bitlen[OF n lo hi] by simp
qed

lemma bit_pow2_u32: "bit ((2::u32) ^ k) i \<longleftrightarrow> i = k \<and> k < 32"
  by (auto simp: bit_exp_iff)

lemma isValidSize_pow2: "isValidSize n \<longleftrightarrow> (\<exists>k<32. n = 2 ^ k)"
proof
  assume v: "isValidSize n"
  then have n: "n \<noteq> 0" and z: "n AND (n - 1) = 0" by (auto simp: isValidSize_def)
  obtain K where K: "K \<le> 32" "K = 0 \<or> 2 ^ (K - 1) \<le> unat n" "unat n < 2 ^ K"
    using ex_bitlen[of n] by blast
  have "0 < unat n" using n by (simp add: unat_gt_0)
  with K(3) have K0: "K \<noteq> 0" by (cases "K = 0") simp_all
  define k where "k = K - 1"
  have k: "k < 32" "2 ^ k \<le> unat n" "unat n < 2 ^ Suc k" using K K0 by (simp_all add: k_def)
  have bn: "bit n k" using k(2,3) by (rule bit_word_top)
  have "unat n = 2 ^ k"
  proof (rule ccontr)
    assume "unat n \<noteq> 2 ^ k"
    with k(2) have "2 ^ k < unat n" by simp
    then have "2 ^ k \<le> unat (n - 1)" using n by (simp add: unat_minus_one)
    moreover have "unat (n - 1) < 2 ^ Suc k" using k(3) n by (simp add: unat_minus_one)
    ultimately have "bit (n - 1) k" by (rule bit_word_top)
    with bn have "bit (n AND (n - 1)) k" by (simp add: bit_and_iff)
    with z show False by simp
  qed
  then have "unat n = unat ((2::u32) ^ k)" using k(1) by (simp add: unat_pow2_u32)
  then have "n = 2 ^ k" by (simp only: word_unat_eq_iff)
  with k(1) show "\<exists>k<32. n = 2 ^ k" by blast
next
  assume "\<exists>k<32. n = 2 ^ k"
  then obtain k where k: "k < 32" "n = 2 ^ k" by blast
  have "n - 1 = mask k" using k by (simp add: mask_eq_exp_minus_1)
  then have "n AND (n - 1) = 0" using k
    by (intro bit_eqI) (auto simp: bit_and_iff bit_mask_iff bit_pow2_u32)
  moreover have "0 < n" using k by (simp add: word_gt_0)
  ultimately show "isValidSize n" by (simp add: isValidSize_def)
qed

lemma nextPowerOf2_least:
  assumes "n \<noteq> 0" and "unat n \<le> 2 ^ 31"
  shows "least_pow2_ge (unat (nextPowerOf2 n)) (unat n)"
proof -
  obtain k where k: "unat (nextPowerOf2 n) = 2 ^ k" "unat n \<le> 2 ^ k"
      "\<forall>j. unat n \<le> 2 ^ j \<longrightarrow> k \<le> j"
    using nextPowerOf2_least_pow2[OF assms] by blast
  have "\<forall>j. unat n \<le> 2 ^ j \<longrightarrow> (2::nat) ^ k \<le> 2 ^ j"
    using k(3) by simp
  with k(1,2) show ?thesis unfolding least_pow2_ge_def by auto
qed

text \<open>
  C6. \<open>isValidSize n\<close> holds iff \<open>n > 0\<close> and \<open>n & (n - 1) = 0\<close> (equivalently, iff \<open>n\<close> is
  one of the powers of two \<open>2^0 .. 2^31\<close>); for every \<open>n\<close> in \<open>[1, 1024]\<close>,
  \<open>nextPowerOf2 n\<close> is the smallest power of two that is at least \<open>n\<close>; and
  \<open>nextPowerOf2 0 = 1\<close>.
\<close>

theorem power_of_two_helpers:
  "(isValidSize n \<longleftrightarrow> 0 < n \<and> n AND (n - 1) = 0)
   \<and> (isValidSize n \<longleftrightarrow> (\<exists>k<32. n = 2 ^ k))
   \<and> (1 \<le> unat m \<and> unat m \<le> 1024 \<longrightarrow> least_pow2_ge (unat (nextPowerOf2 m)) (unat m))
   \<and> nextPowerOf2 0 = 1"
proof -
  have "least_pow2_ge (unat (nextPowerOf2 m)) (unat m)" if "1 \<le> unat m" "unat m \<le> 1024"
  proof -
    have "m \<noteq> 0" using that(1) by (auto simp: unat_eq_0)
    moreover have "unat m \<le> 2 ^ 31" using that(2) by simp
    ultimately show ?thesis by (rule nextPowerOf2_least)
  qed
  moreover have "nextPowerOf2 0 = 1" by (simp add: nextPowerOf2_def)
  ultimately show ?thesis
    using isValidSize_pow2[of n] by (simp add: isValidSize_def)
qed

theorem power_of_two_helpers_witness:
  "isValidSize 64 \<and> \<not> isValidSize 96 \<and> least_pow2_ge (unat (nextPowerOf2 1000)) 1000"
  using power_of_two_helpers[of 64 1000] power_of_two_helpers[of 96 1000]
  by simp

text \<open>
  C10. \<open>nextPowerOf2\<close> computes in 32-bit wrap-around arithmetic. Its result is the smallest
  power of two at least \<open>n\<close> for every \<open>n \<le> 2^31\<close>; for every \<open>n\<close> with
  \<open>2^31 < n \<le> 2^32 - 1\<close> the increment wraps and the result is \<open>0\<close>, which is neither a
  power of two nor at least \<open>n\<close>.
\<close>

theorem nextPowerOf2_wraps:
  "(unat n \<le> 2 ^ 31 \<longrightarrow> least_pow2_ge (unat (nextPowerOf2 n)) (unat n))
   \<and> (2 ^ 31 < unat n \<longrightarrow>
        nextPowerOf2 n = 0 \<and> \<not> isValidSize (nextPowerOf2 n)
        \<and> \<not> unat n \<le> unat (nextPowerOf2 n)
        \<and> \<not> least_pow2_ge (unat (nextPowerOf2 n)) (unat n))"
proof -
  have "least_pow2_ge (unat (nextPowerOf2 n)) (unat n)" if "unat n \<le> 2 ^ 31"
  proof (cases "n = 0")
    case True
    have "\<exists>k. Suc 0 = 2 ^ k" by (rule exI[of _ 0]) simp
    with True show ?thesis by (simp add: nextPowerOf2_def least_pow2_ge_def)
  next
    case False
    then show ?thesis using that by (rule nextPowerOf2_least)
  qed
  moreover have "nextPowerOf2 n = 0 \<and> \<not> isValidSize (nextPowerOf2 n)
        \<and> \<not> unat n \<le> unat (nextPowerOf2 n)
        \<and> \<not> least_pow2_ge (unat (nextPowerOf2 n)) (unat n)" if "2 ^ 31 < unat n"
  proof -
    have z: "nextPowerOf2 n = 0" using that by (rule nextPowerOf2_overflow)
    have "0 < unat n" using that by simp
    then show ?thesis using z by (simp add: isValidSize_def least_pow2_ge_def)
  qed
  ultimately show ?thesis by blast
qed

theorem nextPowerOf2_wraps_witness:
  "least_pow2_ge (unat (nextPowerOf2 (2 ^ 31))) (2 ^ 31)
   \<and> nextPowerOf2 (2 ^ 31 + 1) = 0 \<and> nextPowerOf2 (2 ^ 32 - 1) = 0"
  using nextPowerOf2_wraps[of "2 ^ 31"] nextPowerOf2_wraps[of "2 ^ 31 + 1"]
    nextPowerOf2_wraps[of "2 ^ 32 - 1"]
  by simp

section \<open>Proofs: RealTimeProcessor\<close>

lemma Filter_process_order: "Filter_getOrder (snd (Filter_process rnd f x)) = Filter_getOrder f"
  by (cases f)
     (simp_all add: lp_process_def hp_process_def bp_process_def ma_process_def med_process_def
        lp_getOrder_def hp_getOrder_def bp_getOrder_def ma_getOrder_def med_getOrder_def
        Let_def split: prod.splits)

lemma Filter_reset_order: "Filter_getOrder (Filter_reset f) = Filter_getOrder f"
  by (cases f)
     (simp_all add: lp_reset_def hp_reset_def bp_reset_def ma_reset_def med_reset_def
        lp_getOrder_def hp_getOrder_def bp_getOrder_def ma_getOrder_def med_getOrder_def)

lemma Filter_reset_idem: "Filter_reset (Filter_reset f) = Filter_reset f"
  by (cases f)
     (simp_all add: lp_reset_def hp_reset_def bp_reset_def ma_reset_def med_reset_def)

lemma process_chain_order:
  "Filter_getOrder (snd (process_chain rnd as h x) b) = Filter_getOrder (h b)"
proof (induction as arbitrary: h x)
  case Nil
  show ?case by simp
next
  case (Cons a as)
  obtain y f' where yf: "Filter_process rnd (h a) x = (y, f')" by (cases "Filter_process rnd (h a) x")
  have "Filter_getOrder f' = Filter_getOrder (h a)"
    using Filter_process_order[of rnd "h a" x] yf by simp
  then have e: "Filter_getOrder ((h(a := f')) b) = Filter_getOrder (h b)" by simp
  have "Filter_getOrder (snd (process_chain rnd as (h(a := f')) y) b)
      = Filter_getOrder ((h(a := f')) b)" by (rule Cons.IH)
  also note e
  finally show ?case using yf by simp
qed

lemma processBuffer_order:
  "Filter_getOrder (snd (processBuffer rnd h p xs) b) = Filter_getOrder (h b)"
proof (induction xs arbitrary: h)
  case Nil
  show ?case by simp
next
  case (Cons x xs)
  obtain y h' where s: "processSample rnd h p x = (y, h')" by (cases "processSample rnd h p x")
  obtain ys h'' where b: "processBuffer rnd h' p xs = (ys, h'')" by (cases "processBuffer rnd h' p xs")
  have "Filter_getOrder (h' b) = Filter_getOrder (h b)"
    using process_chain_order[of rnd "m_filters p" h x b] s by (simp add: processSample_def)
  moreover have "Filter_getOrder (h'' b) = Filter_getOrder (h' b)"
    using Cons.IH[of h'] b by simp
  ultimately show ?case using s b by simp
qed

lemma reset_chain_order: "Filter_getOrder (reset_chain as h b) = Filter_getOrder (h b)"
  by (induction as arbitrary: h) (simp_all add: Filter_reset_order)

lemma reset_chain_member:
  "reset_chain as h b = (if b \<in> set as then Filter_reset (h b) else h b)"
proof (induction as arbitrary: h)
  case Nil
  show ?case by simp
next
  case (Cons a as)
  show ?case by (simp add: Cons.IH Filter_reset_idem)
qed

lemma chain_order_cong:
  "(\<And>b. Filter_getOrder (h' b) = Filter_getOrder (h b)) \<Longrightarrow> chain_order h' as = chain_order h as"
  by (simp add: chain_order_def)

lemma chain_order_append: "chain_order h (as @ [a]) = chain_order h as + Filter_getOrder (h a)"
  by (simp add: chain_order_def)

lemma exec_latency_inv: "latency_inv s \<Longrightarrow> latency_inv (exec rnd s c)"
proof -
  assume inv: "latency_inv s"
  obtain h p where s: "s = (h, p)" by (cases s)
  show ?thesis
  proof (cases c)
    case (AddFilter fltr)
    then show ?thesis using inv s
      by (cases fltr)
         (simp_all add: latency_inv_def addFilter_def getLatency_def chain_order_append)
  next
    case ClearFilters
    then show ?thesis using s
      by (simp add: latency_inv_def clearFilters_def getLatency_def chain_order_def)
  next
    case (ProcessSample x)
    have "chain_order (snd (processSample rnd h p x)) (m_filters p) = chain_order h (m_filters p)"
      by (rule chain_order_cong) (simp add: processSample_def process_chain_order)
    then show ?thesis using inv s ProcessSample by (simp add: latency_inv_def)
  next
    case (ProcessBuffer xs)
    have "chain_order (snd (processBuffer rnd h p xs)) (m_filters p) = chain_order h (m_filters p)"
      by (rule chain_order_cong) (simp add: processBuffer_order)
    then show ?thesis using inv s ProcessBuffer by (simp add: latency_inv_def)
  next
    case Reset
    have "chain_order (reset h p) (m_filters p) = chain_order h (m_filters p)"
      by (rule chain_order_cong) (simp add: reset_def reset_chain_order)
    then show ?thesis using inv s Reset by (simp add: latency_inv_def)
  qed
qed

lemma foldl_exec_latency_inv: "latency_inv s \<Longrightarrow> latency_inv (foldl (exec rnd) s cs)"
  by (induction cs arbitrary: s) (simp_all add: exec_latency_inv)

lemma init_latency_inv: "latency_inv (h0, RealTimeProcessor_new bs sr)"
  by (simp add: latency_inv_def RealTimeProcessor_new_def getLatency_def chain_order_def)

lemma unat_chain_order:
  "unat (chain_order h as) = sum_list (map (\<lambda>a. unat (Filter_getOrder (h a))) as) mod 2 ^ 32"
proof (induction as)
  case Nil
  show ?case by (simp add: chain_order_def)
next
  case (Cons a as)
  have "unat (chain_order h (a # as))
      = (unat (Filter_getOrder (h a)) + unat (chain_order h as)) mod 2 ^ 32"
    by (simp add: chain_order_def unat_word_ariths)
  also have "\<dots> = (unat (Filter_getOrder (h a))
      + sum_list (map (\<lambda>a. unat (Filter_getOrder (h a))) as) mod 2 ^ 32) mod 2 ^ 32"
    by (simp only: Cons.IH)
  also have "\<dots> = (unat (Filter_getOrder (h a))
      + sum_list (map (\<lambda>a. unat (Filter_getOrder (h a))) as)) mod 2 ^ 32"
    by (rule mod_add_right_eq)
  finally show ?case by simp
qed

text \<open>
  C8 (amended). In every state reached from a new processor by any sequence of \<open>addFilter\<close>,
  \<open>clearFilters\<close>, \<open>processSample\<close>, \<open>processBuffer\<close> and \<open>reset\<close> calls,
  \<open>getLatency\<close> is the sum of \<open>getOrder\<close> over the filters in the chain taken in
  \<^verbatim>\<open>uint32_t\<close> arithmetic, that is, the sum of the orders modulo \<open>2^32\<close>; it is the sum of
  the orders itself whenever that sum is below \<open>2^32\<close>. \<open>addFilter\<close> with a null pointer is
  an error and changes nothing; with a filter it appends the filter and adds its order to the
  latency (again modulo \<open>2^32\<close>). \<open>reset\<close> resets exactly the member filters of the chain
  and leaves chain and latency as they are.
\<close>

theorem latency_invariant:
  assumes "foldl (exec rnd) (h0, RealTimeProcessor_new bs sr) cs = (h, p)"
  shows "getLatency p = chain_order h (m_filters p)
    \<and> unat (getLatency p)
         = sum_list (map (\<lambda>a. unat (Filter_getOrder (h a))) (m_filters p)) mod 2 ^ 32
    \<and> (sum_list (map (\<lambda>a. unat (Filter_getOrder (h a))) (m_filters p)) < 2 ^ 32 \<longrightarrow>
         unat (getLatency p)
           = sum_list (map (\<lambda>a. unat (Filter_getOrder (h a))) (m_filters p)))
    \<and> unat (getLatency (snd (addFilter h p (Some a))))
         = (unat (getLatency p) + unat (Filter_getOrder (h a))) mod 2 ^ 32
    \<and> addFilter h p None = (Inl InvalidArgument, p)
    \<and> fst (addFilter h p (Some a)) = Inr ()
    \<and> m_filters (snd (addFilter h p (Some a))) = m_filters p @ [a]
    \<and> getLatency (snd (addFilter h p (Some a))) = getLatency p + Filter_getOrder (h a)
    \<and> exec rnd (h, p) Reset = (reset h p, p)
    \<and> (\<forall>b. reset h p b = (if b \<in> set (m_filters p) then Filter_reset (h b) else h b))
    \<and> getLatency p = chain_order (reset h p) (m_filters p)"
proof -
  have "latency_inv (foldl (exec rnd) (h0, RealTimeProcessor_new bs sr) cs)"
    by (rule foldl_exec_latency_inv[OF init_latency_inv])
  then have "latency_inv (h, p)" using assms by simp
  then have l: "getLatency p = chain_order h (m_filters p)" by (simp add: latency_inv_def)
  have "chain_order (reset h p) (m_filters p) = chain_order h (m_filters p)"
    by (rule chain_order_cong) (simp add: reset_def reset_chain_order)
  moreover have u: "unat (getLatency p)
         = sum_list (map (\<lambda>a. unat (Filter_getOrder (h a))) (m_filters p)) mod 2 ^ 32"
    unfolding l by (rule unat_chain_order)
  moreover have "sum_list (map (\<lambda>a. unat (Filter_getOrder (h a))) (m_filters p)) < 2 ^ 32 \<longrightarrow>
         unat (getLatency p)
           = sum_list (map (\<lambda>a. unat (Filter_getOrder (h a))) (m_filters p))"
    unfolding u by simp
  moreover have "unat (getLatency (snd (addFilter h p (Some a))))
         = (unat (getLatency p) + unat (Filter_getOrder (h a))) mod 2 ^ 32"
    by (simp add: addFilter_def getLatency_def unat_word_ariths)
  ultimately show ?thesis using l
    by (simp add: addFilter_def getLatency_def reset_def reset_chain_member)
qed

theorem latency_invariant_witness:
  "getLatency (snd (foldl (exec (fl_round 24)) (\<lambda>a. MovingAverage (MovingAverageFilter_new 3),
        RealTimeProcessor_new 64 1000)
        [AddFilter (Some 0), AddFilter None, AddFilter (Some 1), ProcessSample 1, Reset])) = 6"
proof -
  define S where "S = foldl (exec (fl_round 24)) (\<lambda>a. MovingAverage (MovingAverageFilter_new 3),
        RealTimeProcessor_new 64 1000)
        [AddFilter (Some 0), AddFilter None, AddFilter (Some 1), ProcessSample 1, Reset]"
  have "foldl (exec (fl_round 24)) (\<lambda>a. MovingAverage (MovingAverageFilter_new 3), RealTimeProcessor_new 64 1000)
        [AddFilter (Some 0), AddFilter None, AddFilter (Some 1), ProcessSample 1, Reset]
        = (fst S, snd S)"
    by (simp add: S_def)
  then have "getLatency (snd S) = chain_order (fst S) (m_filters (snd S))"
    using latency_invariant by blast
  also have "chain_order (fst S) (m_filters (snd S)) = 6"
    by (simp add: S_def chain_order_def addFilter_def RealTimeProcessor_new_def reset_def
        reset_chain_order processSample_def process_chain_order ma_getOrder_def
        MovingAverageFilter_new_def Filter_reset_order del: process_chain.simps)
  finally show ?thesis by (simp add: S_def)
qed

text \<open>
  C8, as stated, fails: the latency is a \<^verbatim>\<open>uint32_t\<close> and wraps. A chain of two low-pass
  filters of declared order \<open>2^31\<close> each has latency \<open>0\<close>, while the orders sum to \<open>2^32\<close>.
\<close>

theorem latency_wraps_counterexample:
  "getLatency (snd (foldl (exec (fl_round 24)) (\<lambda>a. LowPass (LowPassFilter_cutoff (1 / 10) (2 ^ 31)),
        RealTimeProcessor_new 64 1000) [AddFilter (Some 0), AddFilter (Some 1)])) = 0
   \<and> m_filters (snd (foldl (exec (fl_round 24)) (\<lambda>a. LowPass (LowPassFilter_cutoff (1 / 10) (2 ^ 31)),
        RealTimeProcessor_new 64 1000) [AddFilter (Some 0), AddFilter (Some 1)])) = [0, 1]
   \<and> sum_list (map (\<lambda>a. unat (Filter_getOrder
          (fst (foldl (exec (fl_round 24)) (\<lambda>a. LowPass (LowPassFilter_cutoff (1 / 10) (2 ^ 31)),
             RealTimeProcessor_new 64 1000) [AddFilter (Some 0), AddFilter (Some 1)]) a))) [0, 1])
       = 2 ^ 32"
  by (simp add: addFilter_def RealTimeProcessor_new_def getLatency_def lp_getOrder_def
      LowPassFilter_cutoff_def)

section \<open>Proofs: rounding\<close>











section \<open>Proofs: moving-average and median filters\<close>

lemma ring_inv_init: "0 < w \<Longrightarrow> ring_inv w (replicate w 0) 0 []"
  unfolding ring_inv_def
  by (rule exI[of _ "replicate w 0"], rule exI[of _ "[]"]) simp


lemma ring_step:
  assumes "ring_inv w buf idx xs"
  shows "ring_inv w (buf[idx := x]) ((idx + 1) mod w) (xs @ [x])"
proof -
  from assms obtain A B where ab: "buf = B @ A"
      "drop (length xs) (replicate w 0 @ xs) = A @ B"
      "length B = idx" "idx < w" "idx = length xs mod w"
    unfolding ring_inv_def by blast
  have len: "length (A @ B) = w" using arg_cong[OF ab(2), of length] by simp
  with ab(3,4) have "A \<noteq> []" by auto
  then obtain a A' where A: "A = a # A'" by (cases A) auto
  have buf': "buf[idx := x] = B @ x # A'"
    using ab(1,3) A by (simp add: list_update_append)
  define L where "L = replicate w (0::real) @ xs"
  have lL: "length xs \<le> length L" by (simp add: L_def)
  have dL: "drop (length xs) L = a # A' @ B" using ab(2) A by (simp add: L_def)
  have "drop (Suc (length xs)) (L @ [x]) = drop 1 (drop (length xs) (L @ [x]))"
    by (simp only: drop_drop) simp
  also have "drop (length xs) (L @ [x]) = drop (length xs) L @ [x]"
    using lL by simp
  also have "drop 1 (drop (length xs) L @ [x]) = A' @ B @ [x]"
    by (simp add: dL)
  finally have dr: "drop (length (xs @ [x])) (replicate w 0 @ xs @ [x]) = A' @ B @ [x]"
    by (simp add: L_def)
  have idx': "(idx + 1) mod w = length (xs @ [x]) mod w"
    using ab(5) by (simp add: mod_Suc_eq)
  have lenA: "Suc (length A') + idx = w" using len A ab(3) by simp
  show ?thesis
  proof (cases "A' = []")
    case True
    then have "idx + 1 = w" using lenA by simp
    then have z: "(idx + 1) mod w = 0" by simp
    show ?thesis unfolding ring_inv_def
      apply (rule exI[of _ "B @ [x]"], rule exI[of _ "[]"])
      using True buf' dr z idx' ab(4) by simp
  next
    case False
    then have "idx + 1 < w" using lenA by (cases A') auto
    then have z: "(idx + 1) mod w = idx + 1" by simp
    show ?thesis unfolding ring_inv_def
      apply (rule exI[of _ "A'"], rule exI[of _ "B @ [x]"])
      using buf' dr z idx' ab(3) \<open>idx + 1 < w\<close> by simp
  qed
qed

lemma drop_pad:
  "drop (length xs) (replicate w (0::real) @ xs)
     = replicate (w - length xs) 0 @ lastn (min (length xs) w) xs"
  by (cases "w \<le> length xs") (simp_all add: lastn_def min_def)

lemma ring_inv_mset:
  assumes "ring_inv w buf idx xs"
  shows "mset buf = mset (replicate (w - length xs) 0 @ lastn (min (length xs) w) xs)"
proof -
  from assms obtain A B where ab: "buf = B @ A"
      "drop (length xs) (replicate w 0 @ xs) = A @ B"
    unfolding ring_inv_def by blast
  have "mset buf = mset (A @ B)" using ab(1) by (simp add: union_commute)
  then show ?thesis using ab(2) by (simp only: drop_pad)
qed


lemma ring_inv_ramp:
  assumes "ring_inv w buf idx xs" "length xs < w"
  shows "take idx buf = xs" "idx = length xs"
proof -
  from assms obtain A B where ab: "buf = B @ A"
      "drop (length xs) (replicate w 0 @ xs) = A @ B"
      "length B = idx" "idx < w" "idx = length xs mod w"
    unfolding ring_inv_def by blast
  show i: "idx = length xs" using ab(5) assms(2) by simp
  have "replicate (w - length xs) 0 @ xs = A @ B" using ab(2) assms(2) by simp
  then have "B = xs" using ab(3) i by (simp add: append_eq_append_conv)
  then show "take idx buf = xs" using ab(1,3) by simp
qed

lemma ring_inv_idx: "ring_inv w buf idx xs \<Longrightarrow> idx = length xs mod w \<and> idx < w"
  unfolding ring_inv_def by blast

lemma unat_succ_mod:
  fixes i W :: u32
  assumes "unat i < unat W"
  shows "unat ((i + 1) mod W) = (unat i + 1) mod unat W"
proof -
  have "unat W < 2 ^ 32" using unsigned_less[of W] by simp
  with assms have "unat i + 1 < 2 ^ 32" by simp
  then have "unat (i + 1) = unat i + 1"
    by (simp add: unat_word_ariths)
  then show ?thesis by (simp add: unat_mod)
qed


lemma process_vec_length: "length (fst (process_vec step f xs)) = length xs"
  by (induction xs arbitrary: f) (simp_all add: case_prod_beta)

lemma process_vec_snoc:
  "process_vec step f (xs @ [x]) =
     (fst (process_vec step f xs) @ [fst (step (snd (process_vec step f xs)) x)],
      snd (step (snd (process_vec step f xs)) x))"
  by (induction xs arbitrary: f) (simp_all add: case_prod_beta)

lemma process_vec_take_Suc:
  assumes "j < length xs"
  shows "fst (process_vec step f xs) ! j
           = fst (step (snd (process_vec step f (take j xs))) (xs ! j))"
  using assms
proof (induction xs arbitrary: j rule: rev_induct)
  case Nil
  then show ?case by simp
next
  case (snoc x xs)
  show ?case
  proof (cases "j < length xs")
    case True
    then show ?thesis using snoc.IH[OF True]
      by (simp add: process_vec_snoc nth_append process_vec_length)
  next
    case False
    with snoc.prems have "j = length xs" by simp
    then show ?thesis by (simp add: process_vec_snoc nth_append process_vec_length)
  qed
qed



lemma full_step:
  assumes "0 < w"
  shows "(Suc k mod w = 0 \<or> w \<le> k) \<longleftrightarrow> w \<le> Suc k"
proof (cases "w \<le> k")
  case True then show ?thesis by simp
next
  case False
  then have "Suc k \<le> w" by simp
  then show ?thesis using assms by (cases "Suc k = w") simp_all
qed









lemma med_inv_new: "w \<noteq> 0 \<Longrightarrow> med_inv w (MedianFilter_new w) []"
  by (simp add: med_inv_def MedianFilter_new_def ring_inv_init unat_gt_0)

lemma sort_mset_cong: "mset xs = mset ys \<Longrightarrow> sort xs = sort (ys::real list)"
  by (rule properties_for_sort) simp_all

lemma median_of_mset_cong: "mset xs = mset ys \<Longrightarrow> median_of xs = median_of ys"
proof -
  assume m: "mset xs = mset ys"
  then have "sort xs = sort ys" by (rule sort_mset_cong)
  moreover have "length xs = length ys" using m by (rule mset_eq_length)
  ultimately show ?thesis by (simp add: median_of_def)
qed

lemma calculateMedian_valid:
  assumes "(if med_bufferFull f then med_buffer f else take (unat (med_index f)) (med_buffer f)) = sb"
    and "sb \<noteq> []"
  shows "calculateMedian f = median_of sb"
  using assms by (simp add: calculateMedian_def median_of_def Let_def)

lemma length_lastn: "length (lastn n xs) = min n (length xs)"
  by (simp add: lastn_def)

lemma med_process_step:
  assumes inv: "med_inv W f xs"
  shows "med_inv W (snd (med_process f x)) (xs @ [x])"
    and "fst (med_process f x) = median_of (lastn (min (Suc (length xs)) (unat W)) (xs @ [x]))"
proof -
  define w where "w = unat W"
  define idx where "idx = unat (med_index f)"
  define k where "k = length xs"
  from inv have ws: "med_windowSize f = W"
    and ring: "ring_inv w (med_buffer f) idx xs"
    and full: "med_bufferFull f \<longleftrightarrow> w \<le> k"
    by (simp_all add: med_inv_def w_def idx_def k_def)
  have idx: "idx = k mod w" "idx < w" using ring_inv_idx[OF ring] by (simp_all add: k_def)
  have w0: "0 < w" using idx(2) by simp
  define idxw where "idxw = (med_index f + 1) mod W"
  have uidx: "unat idxw = (idx + 1) mod w"
    unfolding idxw_def idx_def w_def using idx(2) by (intro unat_succ_mod) (simp add: idx_def w_def)
  have uidx': "unat idxw = Suc k mod w" using uidx idx(1) by (simp add: mod_Suc_eq)
  have z: "idxw = 0 \<longleftrightarrow> Suc k mod w = 0" using uidx' by (simp add: unat_eq_0[symmetric])
  define buf' where "buf' = (med_buffer f)[idx := x]"
  have ring': "ring_inv w buf' (unat idxw) (xs @ [x])"
    unfolding buf'_def using ring_step[OF ring, of x] uidx by simp
  have full': "(idxw = 0 \<or> med_bufferFull f) \<longleftrightarrow> w \<le> Suc k"
    using full_step[OF w0, of k] z full by simp
  then have full'': "(if idxw = 0 then True else med_bufferFull f) \<longleftrightarrow> w \<le> Suc k"
    by (cases "idxw = 0") simp_all
  define f' where "f' = f\<lparr>med_buffer := buf', med_index := idxw,
      med_bufferFull := (if idxw = 0 then True else med_bufferFull f)\<rparr>"
  have step: "med_process f x = (calculateMedian f', f')"
    using ws by (simp add: med_process_def Let_def f'_def buf'_def idx_def idxw_def)
  show "med_inv W (snd (med_process f x)) (xs @ [x])"
    using ring' ws full'' by (simp add: step med_inv_def f'_def w_def k_def)
  define sb where "sb = (if med_bufferFull f' then med_buffer f'
      else take (unat (med_index f')) (med_buffer f'))"
  define tgt where "tgt = lastn (min (Suc k) w) (xs @ [x])"
  have ms: "mset sb = mset tgt"
  proof (cases "w \<le> Suc k")
    case True
    then have "sb = buf'" using full'' by (simp add: sb_def f'_def)
    moreover have "mset buf' = mset (replicate (w - length (xs @ [x])) 0
         @ lastn (min (length (xs @ [x])) w) (xs @ [x]))"
      using ring' by (rule ring_inv_mset)
    ultimately show ?thesis using True by (simp add: tgt_def k_def)
  next
    case False
    then have lt: "length (xs @ [x]) < w" by (simp add: k_def)
    have "sb = take (unat idxw) buf'" using full'' False by (simp add: sb_def f'_def)
    also have "\<dots> = xs @ [x]" using ring' lt by (rule ring_inv_ramp(1))
    finally show ?thesis using False by (simp add: tgt_def k_def lastn_def min_def)
  qed
  have "length tgt = min (Suc k) w" by (simp add: tgt_def length_lastn k_def)
  then have "tgt \<noteq> []" using w0 by auto
  then have "sb \<noteq> []" using ms by auto
  have "calculateMedian f' = median_of sb"
    by (rule calculateMedian_valid[OF sb_def[symmetric] \<open>sb \<noteq> []\<close>])
  also have "\<dots> = median_of tgt" using ms by (rule median_of_mset_cong)
  finally show "fst (med_process f x) = median_of (lastn (min (Suc (length xs)) (unat W)) (xs @ [x]))"
    by (simp add: step tgt_def k_def w_def)
qed

lemma med_inv_run:
  "med_inv W f ys \<Longrightarrow> med_inv W (snd (process_vec med_process f xs)) (ys @ xs)"
proof (induction xs rule: rev_induct)
  case Nil
  then show ?case by simp
next
  case (snoc x xs)
  then have "med_inv W (snd (process_vec med_process f xs)) (ys @ xs)" by simp
  then have "med_inv W (snd (med_process (snd (process_vec med_process f xs)) x)) ((ys @ xs) @ [x])"
    by (rule med_process_step(1))
  then show ?case by (simp add: process_vec_snoc)
qed

lemma med_output:
  assumes "w \<noteq> 0" "j < length xs"
  shows "fst (process_vec med_process (MedianFilter_new w) xs) ! j
          = median_of (lastn (min (Suc j) (unat w)) (take (Suc j) xs))"
proof -
  have "med_inv w (snd (process_vec med_process (MedianFilter_new w) (take j xs))) ([] @ take j xs)"
    using med_inv_new[OF assms(1)] by (rule med_inv_run)
  then have inv: "med_inv w (snd (process_vec med_process (MedianFilter_new w) (take j xs))) (take j xs)"
    by simp
  have "fst (process_vec med_process (MedianFilter_new w) xs) ! j
      = fst (med_process (snd (process_vec med_process (MedianFilter_new w) (take j xs))) (xs ! j))"
    using assms(2) by (rule process_vec_take_Suc)
  also have "\<dots> = median_of (lastn (min (Suc (length (take j xs))) (unat w)) (take j xs @ [xs ! j]))"
    using inv by (rule med_process_step(2))
  finally show ?thesis using assms(2) by (simp add: take_Suc_conv_app_nth min_absorb2)
qed










text \<open>
  C5. For every window size \<open>w \<ge> 1\<close>, the \<open>k\<close>-th call of \<open>process\<close> on a new median
  filter returns the median of the last \<open>min k w\<close> samples: the middle element of their
  sorted copy, or the mean of its two middle elements when their number is even. Before the
  buffer has filled (\<open>k < w\<close>) this is the median of all samples seen so far.
\<close>

theorem median_filter_ramp_up:
  assumes "w \<noteq> 0" "1 \<le> k" "k \<le> length xs"
  shows "fst (process_vec med_process (MedianFilter_new w) xs) ! (k - 1)
            = median_of (lastn (min k (unat w)) (take k xs))
         \<and> (k < unat w \<longrightarrow>
              fst (process_vec med_process (MedianFilter_new w) xs) ! (k - 1)
                = median_of (take k xs))"
proof -
  have "k - 1 < length xs" "Suc (k - 1) = k" using assms by simp_all
  then have main: "fst (process_vec med_process (MedianFilter_new w) xs) ! (k - 1)
            = median_of (lastn (min k (unat w)) (take k xs))"
    using med_output[OF assms(1), of "k - 1" xs] by simp
  have "lastn (min k (unat w)) (take k xs) = take k xs" if "k < unat w"
    using that assms(3) by (simp add: lastn_def min_absorb1)
  with main show ?thesis by simp
qed

theorem median_filter_ramp_up_witness:
  "fst (process_vec med_process (MedianFilter_new 5) [5, 1, 4, 2, 8, 7]) ! 1 = 3
   \<and> fst (process_vec med_process (MedianFilter_new 5) [5, 1, 4, 2, 8, 7]) ! 4 = 4
   \<and> fst (process_vec med_process (MedianFilter_new 5) [5, 1, 4, 2, 8, 7]) ! 5 = 4"
  using median_filter_ramp_up[of 5 2 "[5, 1, 4, 2, 8, 7]"]
    median_filter_ramp_up[of 5 5 "[5, 1, 4, 2, 8, 7]"]
    median_filter_ramp_up[of 5 6 "[5, 1, 4, 2, 8, 7]"]
  by (simp add: lastn_def median_of_def)

section \<open>Proofs: spectral peak\<close>

lemma peak_scan_inv:
  "peak_scan ms fs lo hi (pf, pm) = (pf', pm') \<Longrightarrow>
     pm \<le> pm'
     \<and> (\<forall>i. i < length ms \<and> i < length fs \<and> lo \<le> fs ! i \<and> fs ! i \<le> hi \<longrightarrow> ms ! i \<le> pm')
     \<and> ((pf', pm') = (pf, pm)
         \<or> (\<exists>i. i < length ms \<and> i < length fs \<and> lo \<le> fs ! i \<and> fs ! i \<le> hi
                \<and> pf' = fs ! i \<and> pm' = ms ! i))"
proof (induction ms fs lo hi "(pf, pm)" arbitrary: pf pm rule: peak_scan.induct)
  case (1 m ms f fs lo hi pf pm)
  define acc where "acc = (if f \<ge> lo \<and> f \<le> hi
        then (if m > pm then (f, m) else (pf, pm)) else (pf, pm))"
  obtain qf qm where q: "acc = (qf, qm)" by (cases acc)
  have run: "peak_scan ms fs lo hi (qf, qm) = (pf', pm')"
    using "1.prems" q by (simp add: acc_def)
  have IH: "qm \<le> pm'
     \<and> (\<forall>i. i < length ms \<and> i < length fs \<and> lo \<le> fs ! i \<and> fs ! i \<le> hi \<longrightarrow> ms ! i \<le> pm')
     \<and> ((pf', pm') = (qf, qm)
         \<or> (\<exists>i. i < length ms \<and> i < length fs \<and> lo \<le> fs ! i \<and> fs ! i \<le> hi
                \<and> pf' = fs ! i \<and> pm' = ms ! i))"
    using "1.hyps"[of qf qm] q run by (simp add: acc_def)
  have qm: "pm \<le> qm" "lo \<le> f \<and> f \<le> hi \<longrightarrow> m \<le> qm"
    "(qf, qm) = (pf, pm) \<or> (lo \<le> f \<and> f \<le> hi \<and> qf = f \<and> qm = m)"
    using q by (auto simp: acc_def split: if_splits)
  have a: "pm \<le> pm'" using IH qm(1) by simp
  have b: "\<forall>i. i < length (m # ms) \<and> i < length (f # fs) \<and> lo \<le> (f # fs) ! i \<and> (f # fs) ! i \<le> hi
        \<longrightarrow> (m # ms) ! i \<le> pm'"
  proof (intro allI impI)
    fix i assume h: "i < length (m # ms) \<and> i < length (f # fs) \<and> lo \<le> (f # fs) ! i \<and> (f # fs) ! i \<le> hi"
    show "(m # ms) ! i \<le> pm'"
    proof (cases i)
      case 0
      then show ?thesis using h qm(2) IH by simp
    next
      case (Suc j)
      then show ?thesis using h IH by simp
    qed
  qed
  have c: "(pf', pm') = (pf, pm)
         \<or> (\<exists>i. i < length (m # ms) \<and> i < length (f # fs) \<and> lo \<le> (f # fs) ! i \<and> (f # fs) ! i \<le> hi
                \<and> pf' = (f # fs) ! i \<and> pm' = (m # ms) ! i)"
  proof -
    from IH have "(pf', pm') = (qf, qm)
         \<or> (\<exists>i. i < length ms \<and> i < length fs \<and> lo \<le> fs ! i \<and> fs ! i \<le> hi
                \<and> pf' = fs ! i \<and> pm' = ms ! i)" by simp
    then show ?thesis
    proof
      assume e: "(pf', pm') = (qf, qm)"
      from qm(3) show ?thesis
      proof
        assume "(qf, qm) = (pf, pm)" with e show ?thesis by simp
      next
        assume "lo \<le> f \<and> f \<le> hi \<and> qf = f \<and> qm = m"
        with e have "0 < length (m # ms) \<and> 0 < length (f # fs) \<and> lo \<le> (f # fs) ! 0 \<and> (f # fs) ! 0 \<le> hi
                \<and> pf' = (f # fs) ! 0 \<and> pm' = (m # ms) ! 0" by simp
        then show ?thesis by blast
      qed
    next
      assume "\<exists>i. i < length ms \<and> i < length fs \<and> lo \<le> fs ! i \<and> fs ! i \<le> hi
                \<and> pf' = fs ! i \<and> pm' = ms ! i"
      then obtain i where "i < length ms \<and> i < length fs \<and> lo \<le> fs ! i \<and> fs ! i \<le> hi
                \<and> pf' = fs ! i \<and> pm' = ms ! i" by blast
      then have "Suc i < length (m # ms) \<and> Suc i < length (f # fs) \<and> lo \<le> (f # fs) ! Suc i
          \<and> (f # fs) ! Suc i \<le> hi \<and> pf' = (f # fs) ! Suc i \<and> pm' = (m # ms) ! Suc i" by simp
      then show ?thesis by blast
    qed
  qed
  from a b c show ?case by blast
next
  case 2
  then show ?case by simp
next
  case 3
  then show ?case by simp
qed


lemma getFrequencyBins_Some:
  "length (data r) < 2 ^ 32 \<Longrightarrow>
     getFrequencyBins r = Some (map (bin_freq r) [0..<length (data r)])"
  by (simp add: getFrequencyBins_def bin_freq_def)

text \<open>
  C9. For every \<open>FFTResult\<close> with non-empty data (of fewer than \<open>2^32\<close> bins, so that the
  bin loop returns), \<open>findPeakFrequency\<close> returns; what it returns is either the error
  \<open>DataError\<close> or a frequency, nothing else. It is \<open>DataError\<close> exactly when no bin whose
  frequency lies in \<open>[minFreq, maxFreq]\<close> (\<open>maxFreq\<close> replaced by \<open>sampleRate / 2\<close> when
  negative) has a nonzero magnitude; otherwise it is the frequency of a bin of that band
  whose magnitude is the maximum over the band.
\<close>

theorem findPeakFrequency_correct:
  assumes ne: "data r \<noteq> []" and len: "length (data r) < 2 ^ 32"
  shows "\<exists>res. findPeakFrequency r minFreq maxFreq = Some res
     \<and> (res = Inl DataError \<or> (\<exists>p. res = Inr p))
     \<and> res \<noteq> Inl InvalidArgument
     \<and> (res = Inl DataError \<longleftrightarrow> (\<forall>i. in_band r minFreq maxFreq i \<longrightarrow> bin_mag r i = 0))
     \<and> (\<forall>p. res = Inr p \<longrightarrow>
           (\<exists>i. in_band r minFreq maxFreq i \<and> p = bin_freq r i
              \<and> (\<forall>j. in_band r minFreq maxFreq j \<longrightarrow> bin_mag r j \<le> bin_mag r i)))"
proof -
  define n where "n = length (data r)"
  define ms where "ms = getMagnitude r"
  define fs where "fs = map (bin_freq r) [0..<n]"
  define hi where "hi = (if maxFreq < 0 then sampleRate r / 2 else maxFreq)"
  obtain pf pm where scan: "peak_scan ms fs minFreq hi (0, 0) = (pf, pm)"
    by (cases "peak_scan ms fs minFreq hi (0, 0)")
  define res :: "real Result" where "res = (if pm = 0 then Inl DataError else Inr pf)"
  have run: "findPeakFrequency r minFreq maxFreq = Some res"
    using ne scan
    by (simp add: findPeakFrequency_def getFrequencyBins_Some[OF len] ms_def fs_def hi_def
        n_def res_def)
  have lens: "length ms = n" "length fs = n" by (simp_all add: ms_def fs_def getMagnitude_def n_def)
  have nth: "\<And>i. i < n \<Longrightarrow> ms ! i = bin_mag r i \<and> fs ! i = bin_freq r i"
    by (simp add: ms_def fs_def getMagnitude_def bin_mag_def n_def)
  have band: "\<And>i. in_band r minFreq maxFreq i \<longleftrightarrow> i < n \<and> minFreq \<le> fs ! i \<and> fs ! i \<le> hi"
    using nth by (auto simp: in_band_def n_def hi_def)
  from peak_scan_inv[OF scan]
  have ge: "0 \<le> pm"
    and ub: "\<forall>i. i < length ms \<and> i < length fs \<and> minFreq \<le> fs ! i \<and> fs ! i \<le> hi \<longrightarrow> ms ! i \<le> pm"
    and src: "(pf, pm) = (0, 0)
         \<or> (\<exists>i. i < length ms \<and> i < length fs \<and> minFreq \<le> fs ! i \<and> fs ! i \<le> hi
                \<and> pf = fs ! i \<and> pm = ms ! i)"
    by blast+
  have ub': "\<And>j. in_band r minFreq maxFreq j \<Longrightarrow> bin_mag r j \<le> pm"
    using ub lens nth band by auto
  have nonneg: "\<And>j. 0 \<le> bin_mag r j" by (simp add: bin_mag_def)
  have zero_iff: "pm = 0 \<longleftrightarrow> (\<forall>i. in_band r minFreq maxFreq i \<longrightarrow> bin_mag r i = 0)"
  proof
    assume "pm = 0"
    then show "\<forall>i. in_band r minFreq maxFreq i \<longrightarrow> bin_mag r i = 0"
      using ub' nonneg by (auto intro: antisym)
  next
    assume all0: "\<forall>i. in_band r minFreq maxFreq i \<longrightarrow> bin_mag r i = 0"
    from src show "pm = 0"
    proof
      assume "(pf, pm) = (0, 0)" then show ?thesis by simp
    next
      assume "\<exists>i. i < length ms \<and> i < length fs \<and> minFreq \<le> fs ! i \<and> fs ! i \<le> hi
                \<and> pf = fs ! i \<and> pm = ms ! i"
      then obtain i where i: "i < n" "minFreq \<le> fs ! i" "fs ! i \<le> hi" "pm = ms ! i"
        using lens by auto
      then have "in_band r minFreq maxFreq i" using band by simp
      with all0 have "bin_mag r i = 0" by simp
      with i nth show ?thesis by simp
    qed
  qed
  have peak: "\<exists>i. in_band r minFreq maxFreq i \<and> pf = bin_freq r i
              \<and> (\<forall>j. in_band r minFreq maxFreq j \<longrightarrow> bin_mag r j \<le> bin_mag r i)" if "pm \<noteq> 0"
  proof -
    from src that obtain i where i: "i < n" "minFreq \<le> fs ! i" "fs ! i \<le> hi"
        "pf = fs ! i" "pm = ms ! i"
      using lens by auto
    then have "in_band r minFreq maxFreq i" using band by simp
    moreover have "pf = bin_freq r i" "pm = bin_mag r i" using i nth by simp_all
    ultimately show ?thesis using ub' by auto
  qed
  show ?thesis
    using run zero_iff peak by (intro exI[of _ res]) (auto simp: res_def)
qed

theorem findPeakFrequency_correct_witness:
  "findPeakFrequency \<lparr>data = [1, 3, 0, 2], sampleRate = 8, frequencyResolution = 2,
        fftSize = 4, windowUsed = None'\<rparr> 0 (-1) = Some (Inr 2)
   \<and> findPeakFrequency \<lparr>data = [1, 3, 0, 2], sampleRate = 8, frequencyResolution = 2,
        fftSize = 4, windowUsed = None'\<rparr> 4 5 = Some (Inl DataError)"
  using findPeakFrequency_correct[of "\<lparr>data = [1, 3, 0, 2], sampleRate = 8,
        frequencyResolution = 2, fftSize = 4, windowUsed = None'\<rparr>" 0 "-1"]
    findPeakFrequency_correct[of "\<lparr>data = [1, 3, 0, 2], sampleRate = 8,
        frequencyResolution = 2, fftSize = 4, windowUsed = None'\<rparr>" 4 5]
  by (simp add: findPeakFrequency_def getFrequencyBins_def getMagnitude_def
      upt_conv_Cons)

section \<open>Proofs: Kalman filter\<close>

lemma contraction_sign:
  fixes d r :: "nat \<Rightarrow> real"
  assumes step: "\<And>n. d (Suc n) = d n * r n" and r: "\<And>n. 0 < r n \<and> r n \<le> q"
  shows "0 < d 0 \<Longrightarrow> 0 < d n" and "d 0 < 0 \<Longrightarrow> d n < 0" and "d 0 = 0 \<Longrightarrow> d n = 0"
proof -
  show "0 < d 0 \<Longrightarrow> 0 < d n"
  proof (induction n)
    case (Suc n)
    then show ?case using r[of n] by (simp add: step)
  qed simp
  show "d 0 < 0 \<Longrightarrow> d n < 0"
  proof (induction n)
    case (Suc n)
    then show ?case using r[of n] by (simp add: step mult_neg_pos)
  qed simp
  show "d 0 = 0 \<Longrightarrow> d n = 0"
    by (induction n) (simp_all add: step)
qed

lemma contraction_mono:
  fixes d r :: "nat \<Rightarrow> real"
  assumes step: "\<And>n. d (Suc n) = d n * r n" and r: "\<And>n. 0 < r n \<and> r n \<le> q" and q: "q < 1"
  shows "0 < d 0 \<Longrightarrow> 0 < d (Suc n) \<and> d (Suc n) < d n"
    and "d 0 < 0 \<Longrightarrow> d n < d (Suc n) \<and> d (Suc n) < 0"
proof -
  have r1: "r n < 1" using r[of n] q by simp
  show "0 < d (Suc n) \<and> d (Suc n) < d n" if "0 < d 0"
  proof -
    have "0 < d n" "0 < d (Suc n)" using contraction_sign(1)[OF step r that] by blast+
    moreover have "d n * r n < d n * 1" using \<open>0 < d n\<close> r1 by (intro mult_strict_left_mono)
    ultimately show ?thesis by (simp add: step)
  qed
  show "d n < d (Suc n) \<and> d (Suc n) < 0" if "d 0 < 0"
  proof -
    have "d n < 0" "d (Suc n) < 0" using contraction_sign(2)[OF step r that] by blast+
    moreover have "d n * 1 < d n * r n" using \<open>d n < 0\<close> r1 by (intro mult_strict_left_mono_neg)
    ultimately show ?thesis by (simp add: step)
  qed
qed

lemma contraction_lim:
  fixes d r :: "nat \<Rightarrow> real"
  assumes step: "\<And>n. d (Suc n) = d n * r n" and r: "\<And>n. 0 < r n \<and> r n \<le> q" and q: "q < 1"
  shows "d \<longlonglongrightarrow> 0"
proof -
  have q0: "0 < q" using r[of 0] by simp
  have bound: "\<bar>d n\<bar> \<le> \<bar>d 0\<bar> * q ^ n" for n
  proof (induction n)
    case 0
    show ?case by simp
  next
    case (Suc n)
    have "\<bar>d (Suc n)\<bar> = \<bar>d n\<bar> * r n" using r[of n] by (simp add: step abs_mult)
    also have "\<dots> \<le> \<bar>d n\<bar> * q" using r[of n] by (intro mult_left_mono) simp_all
    also have "\<dots> \<le> (\<bar>d 0\<bar> * q ^ n) * q" using Suc q0 by (intro mult_right_mono) simp_all
    finally show ?case by (simp add: mult_ac)
  qed
  have "(\<lambda>n. q ^ n) \<longlonglongrightarrow> 0" using q0 q by (intro LIMSEQ_realpow_zero) simp_all
  then have up: "(\<lambda>n. \<bar>d 0\<bar> * q ^ n) \<longlonglongrightarrow> 0" by (rule tendsto_mult_right_zero)
  have "(\<lambda>n. \<bar>d n\<bar>) \<longlonglongrightarrow> 0"
  proof (rule real_tendsto_sandwich[where f = "\<lambda>n. 0" and h = "\<lambda>n. \<bar>d 0\<bar> * q ^ n"])
    show "\<forall>\<^sub>F n in sequentially. 0 \<le> \<bar>d n\<bar>" by simp
    show "\<forall>\<^sub>F n in sequentially. \<bar>d n\<bar> \<le> \<bar>d 0\<bar> * q ^ n" using bound by simp
    show "(\<lambda>n. 0::real) \<longlonglongrightarrow> 0" by simp
    show "(\<lambda>n. \<bar>d 0\<bar> * q ^ n) \<longlonglongrightarrow> 0" by (rule up)
  qed
  then show ?thesis by (rule tendsto_rabs_zero_cancel)
qed

lemma steady_cov_props:
  assumes Q: "0 < Q" and R: "0 < R"
  shows "0 < steady_cov Q R" and "(steady_cov Q R)\<^sup>2 + Q * steady_cov Q R = Q * R"
proof -
  define s where "s = sqrt (Q\<^sup>2 + 4 * Q * R)"
  have pos: "0 < Q\<^sup>2 + 4 * Q * R" using Q R by (simp add: add_pos_pos)
  have s2: "s\<^sup>2 = Q\<^sup>2 + 4 * Q * R" using pos by (simp add: s_def)
  have "Q\<^sup>2 < Q\<^sup>2 + 4 * Q * R" using Q R by simp
  then have "sqrt (Q\<^sup>2) < s" unfolding s_def by (simp only: real_sqrt_less_iff)
  then have sQ: "Q < s" using Q by simp
  then show "0 < steady_cov Q R" by (simp add: steady_cov_def s_def)
  have "((s - Q) / 2)\<^sup>2 + Q * ((s - Q) / 2) = (s\<^sup>2 - Q\<^sup>2) / 4"
    by (simp add: power2_eq_square field_simps)
  also have "\<dots> = Q * R" by (simp add: s2)
  finally show "(steady_cov Q R)\<^sup>2 + Q * steady_cov Q R = Q * R"
    by (simp add: steady_cov_def s_def)
qed

lemma cov_step_eq:
  fixes P Q R :: real
  assumes "0 < Q" "0 < R" "0 \<le> P"
  shows "(1 - (P + Q) / (P + Q + R)) * (P + Q) = R * (P + Q) / (P + Q + R)"
proof -
  have "P + Q + R \<noteq> 0" using assms by simp
  then show ?thesis by (simp add: field_simps)
qed

lemma cov_step_diff:
  fixes P Q R S :: real
  assumes Q: "0 < Q" and R: "0 < R" and P: "0 \<le> P" and S: "0 < S" and fp: "S\<^sup>2 + Q * S = Q * R"
  shows "R * (P + Q) / (P + Q + R) - S = (P - S) * (R\<^sup>2 / ((P + Q + R) * (S + Q + R)))"
proof -
  have nz: "P + Q + R \<noteq> 0" "S + Q + R \<noteq> 0" using assms by simp_all
  have S': "S = R * (S + Q) / (S + Q + R)"
  proof -
    have "S * (S + Q + R) = R * (S + Q)" using fp by (simp add: power2_eq_square algebra_simps)
    then show ?thesis using nz(2) by (simp add: field_simps)
  qed
  have "R * (P + Q) / (P + Q + R) - R * (S + Q) / (S + Q + R)
       = (P - S) * (R\<^sup>2 / ((P + Q + R) * (S + Q + R)))"
    using nz by (simp add: field_simps power2_eq_square)
  then show ?thesis using S' by simp
qed


lemma feed_params:
  "k_processNoise (feed f c n) = k_processNoise f
   \<and> k_measurementNoise (feed f c n) = k_measurementNoise f"
  by (induction n) (simp_all add: update_def Let_def)

lemma feed_Suc_cov:
  "k_covariance (feed f c (Suc n))
     = (1 - (k_covariance (feed f c n) + k_processNoise f)
            / (k_covariance (feed f c n) + k_processNoise f + k_measurementNoise f))
       * (k_covariance (feed f c n) + k_processNoise f)"
  using feed_params[of f c n] by (simp add: update_def Let_def)

lemma feed_Suc_est:
  "k_estimate (feed f c (Suc n))
     = k_estimate (feed f c n)
       + (k_covariance (feed f c n) + k_processNoise f)
            / (k_covariance (feed f c n) + k_processNoise f + k_measurementNoise f)
         * (c - k_estimate (feed f c n))"
  using feed_params[of f c n] by (simp add: update_def Let_def)

lemma feed_cov_nonneg:
  assumes Q: "0 < k_processNoise f" and R: "0 < k_measurementNoise f" and P: "0 \<le> k_covariance f"
  shows "0 \<le> k_covariance (feed f c n)"
proof (induction n)
  case 0
  show ?case using P by simp
next
  case (Suc n)
  have "k_covariance (feed f c (Suc n))
      = k_measurementNoise f * (k_covariance (feed f c n) + k_processNoise f)
          / (k_covariance (feed f c n) + k_processNoise f + k_measurementNoise f)"
    unfolding feed_Suc_cov using Q R Suc by (rule cov_step_eq)
  also have "0 \<le> \<dots>" using Q R Suc by simp
  finally show ?case .
qed

lemma gain_bounds:
  fixes P Q R :: real
  assumes "0 < Q" "0 < R" "0 \<le> P"
  shows "0 < R / (P + Q + R) \<and> R / (P + Q + R) \<le> R / (Q + R)"
  using assms by (simp add: frac_le)

lemma rho_bounds:
  fixes P Q R S :: real
  assumes Q: "0 < Q" and R: "0 < R" and P: "0 \<le> P" and S: "0 < S"
  shows "0 < R\<^sup>2 / ((P + Q + R) * (S + Q + R))
       \<and> R\<^sup>2 / ((P + Q + R) * (S + Q + R)) \<le> R / (Q + R)"
proof -
  have a: "R / (P + Q + R) \<le> R / (Q + R)" "0 < R / (P + Q + R)"
    using gain_bounds[OF Q R P] by simp_all
  have b: "R / (S + Q + R) \<le> 1" "0 < R / (S + Q + R)" using Q R S by simp_all
  have e: "R\<^sup>2 / ((P + Q + R) * (S + Q + R)) = R / (P + Q + R) * (R / (S + Q + R))"
    by (simp add: power2_eq_square)
  have "R / (P + Q + R) * (R / (S + Q + R)) \<le> R / (Q + R) * 1"
    using a b by (intro mult_mono) simp_all
  then have le: "R / (P + Q + R) * (R / (S + Q + R)) \<le> R / (Q + R)" by (simp only: mult_1_right)
  have "0 < R / (P + Q + R) * (R / (S + Q + R))"
    using a(2) b(2) by (rule mult_pos_pos)
  with le show ?thesis unfolding e by (rule conjI[rotated])
qed

lemma kalman_contraction:
  assumes Q: "0 < k_processNoise f" and R: "0 < k_measurementNoise f"
    and P: "0 \<le> k_covariance f"
  shows
   "(getEstimate f < c \<longrightarrow>
        getEstimate (feed f c n) < getEstimate (feed f c (Suc n))
        \<and> getEstimate (feed f c (Suc n)) < c)
    \<and> (c < getEstimate f \<longrightarrow>
        c < getEstimate (feed f c (Suc n))
        \<and> getEstimate (feed f c (Suc n)) < getEstimate (feed f c n))
    \<and> (getEstimate f = c \<longrightarrow> getEstimate (feed f c n) = c)
    \<and> (\<lambda>n. getEstimate (feed f c n)) \<longlonglongrightarrow> c
    \<and> 0 < getCovariance (feed f c (Suc n))
    \<and> 0 < steady_cov (k_processNoise f) (k_measurementNoise f)
    \<and> (steady_cov (k_processNoise f) (k_measurementNoise f) < getCovariance f \<longrightarrow>
        getCovariance (feed f c (Suc n)) < getCovariance (feed f c n)
        \<and> steady_cov (k_processNoise f) (k_measurementNoise f) < getCovariance (feed f c (Suc n)))
    \<and> (getCovariance f < steady_cov (k_processNoise f) (k_measurementNoise f) \<longrightarrow>
        getCovariance (feed f c n) < getCovariance (feed f c (Suc n))
        \<and> getCovariance (feed f c (Suc n)) < steady_cov (k_processNoise f) (k_measurementNoise f))
    \<and> (getCovariance f = steady_cov (k_processNoise f) (k_measurementNoise f) \<longrightarrow>
        getCovariance (feed f c n) = steady_cov (k_processNoise f) (k_measurementNoise f))
    \<and> (\<lambda>n. getCovariance (feed f c n))
        \<longlonglongrightarrow> steady_cov (k_processNoise f) (k_measurementNoise f)"
proof -
  define Qv where "Qv = k_processNoise f"
  define Rv where "Rv = k_measurementNoise f"
  define S where "S = steady_cov Qv Rv"
  define q where "q = Rv / (Qv + Rv)"
  define Pn where "Pn = (\<lambda>n. k_covariance (feed f c n))"
  define En where "En = (\<lambda>n. k_estimate (feed f c n))"
  have Q': "0 < Qv" and R': "0 < Rv" using Q R by (simp_all add: Qv_def Rv_def)
  have q1: "q < 1" using Q' R' by (simp add: q_def)
  have S0: "0 < S" and Sfix: "S\<^sup>2 + Qv * S = Qv * Rv"
    using steady_cov_props[OF Q' R'] by (simp_all add: S_def)
  have Pnn: "0 \<le> Pn n" for n
    unfolding Pn_def using Q R P by (rule feed_cov_nonneg)
  have Pstep: "Pn (Suc n) = Rv * (Pn n + Qv) / (Pn n + Qv + Rv)" for n
    unfolding Pn_def Qv_def Rv_def feed_Suc_cov
    using Q R Pnn[of n] by (intro cov_step_eq) (simp_all add: Pn_def)
  \<comment> \<open>the estimate\<close>
  define de where "de = (\<lambda>n. En n - c)"
  define re where "re = (\<lambda>n. Rv / (Pn n + Qv + Rv))"
  have re: "0 < re n \<and> re n \<le> q" for n
    unfolding re_def q_def using Q' R' Pnn[of n] by (rule gain_bounds)
  have de_step: "de (Suc n) = de n * re n" for n
  proof -
    have nz: "Pn n + Qv + Rv \<noteq> 0" using Q' R' Pnn[of n] by simp
    have "En (Suc n) = En n + (Pn n + Qv) / (Pn n + Qv + Rv) * (c - En n)"
      unfolding En_def Pn_def Qv_def Rv_def by (rule feed_Suc_est)
    then show ?thesis using nz by (simp add: de_def re_def field_simps)
  qed
  have e1: "getEstimate f < c \<longrightarrow>
        getEstimate (feed f c n) < getEstimate (feed f c (Suc n))
        \<and> getEstimate (feed f c (Suc n)) < c"
  proof
    assume "getEstimate f < c"
    then have "de 0 < 0" by (simp add: de_def En_def getEstimate_def)
    from contraction_mono(2)[of de re q, OF de_step re q1 this, of n]
    show "getEstimate (feed f c n) < getEstimate (feed f c (Suc n))
        \<and> getEstimate (feed f c (Suc n)) < c"
      by (simp add: de_def En_def getEstimate_def)
  qed
  have e2: "c < getEstimate f \<longrightarrow>
        c < getEstimate (feed f c (Suc n))
        \<and> getEstimate (feed f c (Suc n)) < getEstimate (feed f c n)"
  proof
    assume "c < getEstimate f"
    then have "0 < de 0" by (simp add: de_def En_def getEstimate_def)
    from contraction_mono(1)[of de re q, OF de_step re q1 this, of n]
    show "c < getEstimate (feed f c (Suc n))
        \<and> getEstimate (feed f c (Suc n)) < getEstimate (feed f c n)"
      by (simp add: de_def En_def getEstimate_def)
  qed
  have e3: "getEstimate f = c \<longrightarrow> getEstimate (feed f c n) = c"
  proof
    assume "getEstimate f = c"
    then have "de 0 = 0" by (simp add: de_def En_def getEstimate_def)
    from contraction_sign(3)[of de re q, OF de_step re this, of n]
    show "getEstimate (feed f c n) = c" by (simp add: de_def En_def getEstimate_def)
  qed
  have "de \<longlonglongrightarrow> 0" using de_step re q1 by (rule contraction_lim)
  then have "(\<lambda>n. En n - c) \<longlonglongrightarrow> 0" by (simp add: de_def)
  then have "En \<longlonglongrightarrow> c" by (rule LIM_zero_cancel)
  then have e4: "(\<lambda>n. getEstimate (feed f c n)) \<longlonglongrightarrow> c"
    by (simp add: En_def getEstimate_def)
  \<comment> \<open>the covariance\<close>
  define dp where "dp = (\<lambda>n. Pn n - S)"
  define rp where "rp = (\<lambda>n. Rv\<^sup>2 / ((Pn n + Qv + Rv) * (S + Qv + Rv)))"
  have rp: "0 < rp n \<and> rp n \<le> q" for n
    unfolding rp_def q_def using Q' R' Pnn[of n] S0 by (rule rho_bounds)
  have dp_step: "dp (Suc n) = dp n * rp n" for n
    unfolding dp_def rp_def Pstep using Q' R' Pnn[of n] S0 Sfix by (rule cov_step_diff)
  have p0: "0 < getCovariance (feed f c (Suc n))"
  proof -
    have "0 < Rv * (Pn n + Qv) / (Pn n + Qv + Rv)" using Q' R' Pnn[of n] by simp
    then show ?thesis using Pstep[of n] by (simp add: Pn_def getCovariance_def)
  qed
  have p1: "steady_cov (k_processNoise f) (k_measurementNoise f) < getCovariance f \<longrightarrow>
        getCovariance (feed f c (Suc n)) < getCovariance (feed f c n)
        \<and> steady_cov (k_processNoise f) (k_measurementNoise f) < getCovariance (feed f c (Suc n))"
  proof
    assume "steady_cov (k_processNoise f) (k_measurementNoise f) < getCovariance f"
    then have "0 < dp 0" by (simp add: dp_def Pn_def S_def Qv_def Rv_def getCovariance_def)
    from contraction_mono(1)[of dp rp q, OF dp_step rp q1 this, of n]
    show "getCovariance (feed f c (Suc n)) < getCovariance (feed f c n)
        \<and> steady_cov (k_processNoise f) (k_measurementNoise f) < getCovariance (feed f c (Suc n))"
      by (simp add: dp_def Pn_def S_def Qv_def Rv_def getCovariance_def)
  qed
  have p2: "getCovariance f < steady_cov (k_processNoise f) (k_measurementNoise f) \<longrightarrow>
        getCovariance (feed f c n) < getCovariance (feed f c (Suc n))
        \<and> getCovariance (feed f c (Suc n)) < steady_cov (k_processNoise f) (k_measurementNoise f)"
  proof
    assume "getCovariance f < steady_cov (k_processNoise f) (k_measurementNoise f)"
    then have "dp 0 < 0" by (simp add: dp_def Pn_def S_def Qv_def Rv_def getCovariance_def)
    from contraction_mono(2)[of dp rp q, OF dp_step rp q1 this, of n]
    show "getCovariance (feed f c n) < getCovariance (feed f c (Suc n))
        \<and> getCovariance (feed f c (Suc n)) < steady_cov (k_processNoise f) (k_measurementNoise f)"
      by (simp add: dp_def Pn_def S_def Qv_def Rv_def getCovariance_def)
  qed
  have p3: "getCovariance f = steady_cov (k_processNoise f) (k_measurementNoise f) \<longrightarrow>
        getCovariance (feed f c n) = steady_cov (k_processNoise f) (k_measurementNoise f)"
  proof
    assume "getCovariance f = steady_cov (k_processNoise f) (k_measurementNoise f)"
    then have "dp 0 = 0" by (simp add: dp_def Pn_def S_def Qv_def Rv_def getCovariance_def)
    from contraction_sign(3)[of dp rp q, OF dp_step rp this, of n]
    show "getCovariance (feed f c n) = steady_cov (k_processNoise f) (k_measurementNoise f)"
      by (simp add: dp_def Pn_def S_def Qv_def Rv_def getCovariance_def)
  qed
  have "dp \<longlonglongrightarrow> 0" using dp_step rp q1 by (rule contraction_lim)
  then have "(\<lambda>n. Pn n - S) \<longlonglongrightarrow> 0" by (simp add: dp_def)
  then have "Pn \<longlonglongrightarrow> S" by (rule LIM_zero_cancel)
  then have p4: "(\<lambda>n. getCovariance (feed f c n))
        \<longlonglongrightarrow> steady_cov (k_processNoise f) (k_measurementNoise f)"
    by (simp add: Pn_def S_def Qv_def Rv_def getCovariance_def)
  have s0: "0 < steady_cov (k_processNoise f) (k_measurementNoise f)"
    using S0 by (simp add: S_def Qv_def Rv_def)
  from e1 e2 e3 e4 p0 s0 p1 p2 p3 p4 show ?thesis by blast
qed



lemma steady_cov_1_2: "steady_cov 1 2 = 1"
proof -
  have "sqrt (3\<^sup>2) = (3::real)" by simp
  moreover have "(1::real)\<^sup>2 + 4 * 1 * 2 = 3\<^sup>2" by simp
  ultimately have "sqrt ((1::real)\<^sup>2 + 4 * 1 * 2) = 3" by simp
  then show ?thesis unfolding steady_cov_def by simp
qed



lemma kalman_default_covariance_constant:
  "getCovariance (feed (KalmanFilter_new 1 2 e 1) c n) = 1"
  using kalman_contraction[of "KalmanFilter_new 1 2 e 1" c n]
  by (simp add: KalmanFilter_new_def steady_cov_1_2 getCovariance_def)

section \<open>Proofs: FFT entry points\<close>

lemma inverse_not_padded:
  assumes "input \<noteq> []" "\<not> isValidSize (of_nat (length input))"
  shows "inverse_fft input = Some (Inr (map Re input))"
    and "inverseComplex input = Some (Inr input)"
  using assms by (simp_all add: inverse_fft_def inverseComplex_def radix2FFT_def)


lemma butterfly_length: "length (snd (butterfly len wlen i j s)) = length (snd s)"
  by (cases s) (simp add: butterfly_def Let_def)

lemma fold_butterfly_length:
  "length (snd (fold (butterfly len wlen i) js s)) = length (snd s)"
  by (induction js arbitrary: s) (simp_all add: butterfly_length)

lemma butterflies_length: "length (butterflies len wlen i dat) = length dat"
  by (simp add: butterflies_def fold_butterfly_length)

lemma bitReverse_step_length: "length (snd (bitReverse_step n i s)) = length (snd s)"
  by (cases s) (simp add: bitReverse_step_def Let_def split: prod.splits)

lemma fold_bitReverse_step_length:
  "length (snd (fold (bitReverse_step n) is s)) = length (snd s)"
  by (induction "is" arbitrary: s) (simp_all add: bitReverse_step_length)

lemma bitReverse_length: "length (bitReverse dat) = length dat"
  by (simp add: bitReverse_def Let_def fold_bitReverse_step_length)

lemma dvd_next_block:
  fixes l a n :: nat
  assumes "l dvd a" "l dvd n" "a < n"
  shows "a + l \<le> n"
proof -
  from assms obtain p q where pq: "a = l * p" "n = l * q" by (auto elim!: dvdE)
  with assms(3) have "p < q" by auto
  then have "Suc p \<le> q" by simp
  then have "l * Suc p \<le> l * q" by (rule mult_le_mono2)
  then show ?thesis using pq by simp
qed

lemma fft_blocks_returns:
  assumes "unat len dvd unat n" "unat len dvd unat i" "0 < unat len"
  shows "\<exists>d. fft_blocks n len wlen i dat = Some d \<and> length d = length dat"
  using assms(2)
proof (induction "unat n - unat i" arbitrary: i dat rule: less_induct)
  case less
  show ?case
  proof (cases "i < n")
    case False
    then show ?thesis by (subst fft_blocks.simps) simp
  next
    case True
    then have lt: "unat i < unat n" by (simp add: word_less_nat_alt)
    have le: "unat i + unat len \<le> unat n"
      using less.prems assms(1) lt by (rule dvd_next_block)
    have "unat n < 2 ^ 32" using unsigned_less[of n] by simp
    with le have "unat i + unat len < 2 ^ 32" by simp
    then have u: "unat (i + len) = unat i + unat len"
      by (simp add: unat_word_ariths)
    have d: "unat len dvd unat (i + len)" using less.prems by (simp add: u)
    have m: "unat n - unat (i + len) < unat n - unat i" using u lt assms(3) by simp
    obtain d' where "fft_blocks n len wlen (i + len) (butterflies len wlen i dat) = Some d'"
        "length d' = length (butterflies len wlen i dat)"
      using less.hyps[OF m d] by blast
    then show ?thesis using True by (subst fft_blocks.simps) (simp add: butterflies_length)
  qed
qed

lemma pow2_u32_le: "j \<le> 31 \<Longrightarrow> k \<le> 31 \<Longrightarrow> (2::u32) ^ j \<le> 2 ^ k \<longleftrightarrow> j \<le> k"
  by (simp add: word_le_nat_alt unat_pow2_u32)

lemma fft_stages_returns:
  assumes "k \<le> 30" "1 \<le> j" "j \<le> Suc k"
  shows "\<exists>d. fft_stages inverse' (2 ^ k) (2 ^ j) dat = Some d \<and> length d = length dat"
  using assms(2,3)
proof (induction "Suc k - j" arbitrary: j dat rule: less_induct)
  case less
  have j31: "j \<le> 31" and k31: "k \<le> 31" using less.prems assms(1) by simp_all
  show ?case
  proof (cases "j \<le> k")
    case False
    then have "\<not> (2::u32) ^ j \<le> 2 ^ k" using j31 k31 by (simp add: pow2_u32_le)
    then show ?thesis by (subst fft_stages.simps) simp
  next
    case True
    then have le: "(2::u32) ^ j \<le> 2 ^ k" using j31 k31 by (simp add: pow2_u32_le)
    have uj: "unat ((2::u32) ^ j) = 2 ^ j" "unat ((2::u32) ^ k) = 2 ^ k"
      using True assms(1) by (simp_all add: unat_pow2_u32)
    have dv: "unat ((2::u32) ^ j) dvd unat ((2::u32) ^ k)"
      using True by (simp add: uj le_imp_power_dvd)
    obtain d1 where d1: "fft_blocks (2 ^ k) (2 ^ j) (twiddle inverse' (2 ^ j)) 0 dat = Some d1"
        "length d1 = length dat"
      using fft_blocks_returns[OF dv, of 0 "twiddle inverse' (2 ^ j)" dat] by (auto simp: uj)
    have pb: "push_bit 1 ((2::u32) ^ j) = 2 ^ Suc j" by (simp add: push_bit_eq_mult)
    have "Suc k - Suc j < Suc k - j" using True by simp
    then obtain d2 where "fft_stages inverse' (2 ^ k) (2 ^ Suc j) d1 = Some d2"
        "length d2 = length d1"
      using less.hyps[of "Suc j" d1] True by auto
    then have d2: "fft_stages inverse' (2 ^ k) (push_bit 1 (2 ^ j)) d1 = Some d2"
        "length d2 = length dat"
      using d1(2) by (simp_all only: pb)
    have "fft_stages inverse' (2 ^ k) (2 ^ j) dat = Some d2"
      by (subst fft_stages.simps) (simp only: le if_True d1(1) Option.bind.simps d2)
    with d2(2) show ?thesis by blast
  qed
qed


lemma radix2FFT_returns:
  assumes "length dat = 2 ^ k" "k \<le> 30"
  shows "\<exists>d. fft_stages inverse' (2 ^ k) 2 (bitReverse dat) = Some d
           \<and> length d = length dat
           \<and> radix2FFT dat inverse'
               = Some (if inverse' then map (\<lambda>sample. sample * complex_of_real (1 / 2 ^ k)) d else d)"
proof -
  have n: "(of_nat (length dat) :: u32) = 2 ^ k" using assms(1) by simp
  have "k < 32" using assms(2) by simp
  then have "\<exists>ka<32. (2::u32) ^ k = 2 ^ ka" by blast
  then have v: "isValidSize ((2::u32) ^ k)" by (simp only: isValidSize_pow2)
  obtain d where d: "fft_stages inverse' (2 ^ k) (2 ^ 1) (bitReverse dat) = Some d"
      "length d = length (bitReverse dat)"
    using fft_stages_returns[OF assms(2), of 1 inverse' "bitReverse dat"] by auto
  have u: "real (unat ((2::u32) ^ k)) = 2 ^ k" using assms(2) by (simp add: unat_pow2_u32)
  show ?thesis
    using d v u by (intro exI[of _ d]) (simp add: radix2FFT_def n bitReverse_length)
qed


lemma nextPowerOf2_length:
  assumes "input \<noteq> []" "length input \<le> 2 ^ 30"
  shows "\<exists>k\<le>30. nextPowerOf2 (of_nat (length input)) = 2 ^ k
           \<and> unat (nextPowerOf2 (of_nat (length input))) = 2 ^ k
           \<and> length input \<le> 2 ^ k
           \<and> least_pow2_ge (2 ^ k) (length input)"
proof -
  define n :: u32 where "n = of_nat (length input)"
  have "length input < 2 ^ 32" using assms(2) by simp
  moreover have "unat n = length input mod 2 ^ LENGTH(32)"
    unfolding n_def by (rule unat_of_nat)
  ultimately have un: "unat n = length input" by simp
  have n0: "n \<noteq> 0" using assms(1) un by (auto simp: unat_eq_0[symmetric])
  have le: "unat n \<le> 2 ^ 31" using assms(2) un by simp
  obtain k where k: "k \<le> 31" "nextPowerOf2 n = 2 ^ k" "unat (nextPowerOf2 n) = 2 ^ k"
      "unat n \<le> 2 ^ k" "\<forall>j. unat n \<le> 2 ^ j \<longrightarrow> k \<le> j"
    using nextPowerOf2_least_pow2[OF n0 le] by blast
  have "unat n \<le> 2 ^ 30" using assms(2) un by simp
  with k(5) have k30: "k \<le> 30" by blast
  have "least_pow2_ge (unat (nextPowerOf2 n)) (unat n)" using n0 le by (rule nextPowerOf2_least)
  then have "least_pow2_ge (2 ^ k) (length input)" by (simp only: k(3) un)
  with k k30 un show ?thesis unfolding n_def by auto
qed

lemma zeroPad_length: "length (zeroPad signal t) = unat t"
  by (simp add: zeroPad_def)

lemma zeroPad_append:
  "length signal \<le> unat t \<Longrightarrow> zeroPad signal t = signal @ replicate (unat t - length signal) 0"
  by (simp add: zeroPad_def)

lemma generateWindow_length: "length (generateWindow sz w p) = unat sz"
  by (simp add: generateWindow_def)

lemma forward_pads_and_transforms:
  assumes "input \<noteq> []" "length input \<le> 2 ^ 30"
  shows "\<exists>r. forward input sr w = Some (Inr r)
     \<and> fftSize r = nextPowerOf2 (of_nat (length input))
     \<and> least_pow2_ge (unat (fftSize r)) (length input)
     \<and> isValidSize (fftSize r)
     \<and> length (data r) = unat (fftSize r)
     \<and> zeroPad input (fftSize r) = input @ replicate (unat (fftSize r) - length input) 0
     \<and> radix2FFT (map (\<lambda>sample. Complex sample 0)
           (if w \<noteq> None'
            then map2 (*) (zeroPad input (fftSize r)) (generateWindow (fftSize r) w 0)
            else zeroPad input (fftSize r))) False = Some (data r)"
proof -
  define N where "N = nextPowerOf2 (of_nat (length input))"
  obtain k where k: "k \<le> 30" "N = 2 ^ k" "unat N = 2 ^ k" "length input \<le> 2 ^ k"
      "least_pow2_ge (2 ^ k) (length input)"
    using nextPowerOf2_length[OF assms] unfolding N_def by blast
  define cd where "cd = map (\<lambda>sample. Complex sample 0)
           (if w \<noteq> None' then map2 (*) (zeroPad input N) (generateWindow N w 0)
            else zeroPad input N)"
  have len: "length cd = 2 ^ k"
    by (simp add: cd_def zeroPad_length generateWindow_length k(3))
  obtain d where d: "length d = length cd" "radix2FFT cd False = Some d"
    using radix2FFT_returns[OF len k(1), of False] by auto
  define r where "r = \<lparr> data = d, sampleRate = sr,
      frequencyResolution = sr / real (unat N), fftSize = N, windowUsed = w \<rparr>"
  have run: "forward input sr w = Some (Inr r)"
    using assms(1) d(2)
    by (simp add: forward_def Let_def N_def[symmetric] cd_def[symmetric] r_def)
  have "k < 32" using k(1) by simp
  then have "\<exists>ka<32. N = 2 ^ ka" using k(2) by blast
  then have v: "isValidSize N" by (simp only: isValidSize_pow2)
  have zp: "zeroPad input N = input @ replicate (unat N - length input) 0"
    using k(3,4) by (intro zeroPad_append) simp
  have sel: "fftSize r = N" "data r = d" by (simp_all add: r_def)
  have rf: "radix2FFT (map (\<lambda>sample. Complex sample 0)
           (if w \<noteq> None' then map2 (*) (zeroPad input N) (generateWindow N w 0)
            else zeroPad input N)) False = Some d"
    using d(2) by (simp only: cd_def)
  show ?thesis
  proof (intro exI[of _ r] conjI)
    show "forward input sr w = Some (Inr r)" by (rule run)
    show "fftSize r = nextPowerOf2 (of_nat (length input))" by (simp only: sel N_def)
    show "least_pow2_ge (unat (fftSize r)) (length input)" using k(5) by (simp only: sel k(3))
    show "isValidSize (fftSize r)" using v by (simp only: sel)
    show "length (data r) = unat (fftSize r)" using d(1) len by (simp only: sel k(3))
    show "zeroPad input (fftSize r) = input @ replicate (unat (fftSize r) - length input) 0"
      using zp by (simp only: sel)
    show "radix2FFT (map (\<lambda>sample. Complex sample 0)
           (if w \<noteq> None'
            then map2 (*) (zeroPad input (fftSize r)) (generateWindow (fftSize r) w 0)
            else zeroPad input (fftSize r))) False = Some (data r)"
      using rf by (simp only: sel)
  qed
qed

lemma forward_complex_pads_and_transforms:
  assumes "input \<noteq> []" "length input \<le> 2 ^ 30"
  shows "\<exists>r. forward_complex input sr w = Some (Inr r)
     \<and> fftSize r = nextPowerOf2 (of_nat (length input))
     \<and> least_pow2_ge (unat (fftSize r)) (length input)
     \<and> isValidSize (fftSize r)
     \<and> length (data r) = unat (fftSize r)
     \<and> radix2FFT
          (if w \<noteq> None'
           then map2 (\<lambda>s c. s * complex_of_real c)
                  (input @ replicate (unat (fftSize r) - length input) 0)
                  (generateWindow (fftSize r) w 0)
           else input @ replicate (unat (fftSize r) - length input) 0) False = Some (data r)"
proof -
  define N where "N = nextPowerOf2 (of_nat (length input))"
  obtain k where k: "k \<le> 30" "N = 2 ^ k" "unat N = 2 ^ k" "length input \<le> 2 ^ k"
      "least_pow2_ge (2 ^ k) (length input)"
    using nextPowerOf2_length[OF assms] unfolding N_def by blast
  define pd where "pd = input @ replicate (unat N - length input) (0::complex)"
  have tk: "take (unat N) input @ replicate (unat N - length input) 0 = pd"
    using k(3,4) by (simp add: pd_def)
  define cd where "cd = (if w \<noteq> None'
           then map2 (\<lambda>s c. s * complex_of_real c) pd (generateWindow N w 0) else pd)"
  have "length pd = 2 ^ k" using k(3,4) by (simp add: pd_def)
  then have len: "length cd = 2 ^ k"
    by (simp add: cd_def generateWindow_length k(3))
  obtain d where d: "length d = length cd" "radix2FFT cd False = Some d"
    using radix2FFT_returns[OF len k(1), of False] by auto
  define r where "r = \<lparr> data = d, sampleRate = sr,
      frequencyResolution = sr / real (unat N), fftSize = N, windowUsed = w \<rparr>"
  have run: "forward_complex input sr w = Some (Inr r)"
    unfolding forward_complex_def Let_def N_def[symmetric] tk cd_def[symmetric]
    using assms(1) d(2) by (simp add: r_def)
  have "k < 32" using k(1) by simp
  then have "\<exists>ka<32. N = 2 ^ ka" using k(2) by blast
  then have v: "isValidSize N" by (simp only: isValidSize_pow2)
  have sel: "fftSize r = N" "data r = d" by (simp_all add: r_def)
  have rf: "radix2FFT
          (if w \<noteq> None'
           then map2 (\<lambda>s c. s * complex_of_real c)
                  (input @ replicate (unat N - length input) 0) (generateWindow N w 0)
           else input @ replicate (unat N - length input) 0) False = Some d"
    using d(2) by (simp only: cd_def pd_def)
  show ?thesis
  proof (intro exI[of _ r] conjI)
    show "forward_complex input sr w = Some (Inr r)" by (rule run)
    show "fftSize r = nextPowerOf2 (of_nat (length input))" by (simp only: sel N_def)
    show "least_pow2_ge (unat (fftSize r)) (length input)" using k(5) by (simp only: sel k(3))
    show "isValidSize (fftSize r)" using v by (simp only: sel)
    show "length (data r) = unat (fftSize r)" using d(1) len by (simp only: sel k(3))
    show "radix2FFT
          (if w \<noteq> None'
           then map2 (\<lambda>s c. s * complex_of_real c)
                  (input @ replicate (unat (fftSize r) - length input) 0)
                  (generateWindow (fftSize r) w 0)
           else input @ replicate (unat (fftSize r) - length input) 0) False = Some (data r)"
      using rf by (simp only: sel)
  qed
qed


lemma forward_length_overflow:
  assumes "2 ^ 31 < length input" "length input < 2 ^ 32"
  shows "\<exists>r. forward input sr w = Some (Inr r) \<and> data r = [] \<and> fftSize r = 0"
proof -
  define n :: u32 where "n = of_nat (length input)"
  have "unat n = length input mod 2 ^ LENGTH(32)"
    unfolding n_def by (rule unat_of_nat)
  then have un: "unat n = length input" using assms(2) by simp
  have z: "nextPowerOf2 n = 0" using assms(1) un by (intro nextPowerOf2_overflow) simp
  have ne: "input \<noteq> []" using assms(1) by auto
  have r0: "radix2FFT [] False = Some []" by (simp add: radix2FFT_def isValidSize_def)
  show ?thesis
    using ne by (simp add: forward_def Let_def n_def[symmetric] z zeroPad_def generateWindow_def r0)
qed


text \<open>
  C2 (every public entry point pads a non-power-of-two input and transforms it) holds for the
  two \<open>forward\<close> entry points (lemmas \<open>forward_pads_and_transforms\<close> and
  \<open>forward_complex_pads_and_transforms\<close>, for up to \<open>2^30\<close> samples) and fails for the two
  inverse entry points, which do not pad: on an input of length 3 both report success and
  return the input as it came, the transform skipped by the size guard of \<open>radix2FFT\<close>.
\<close>

theorem inverse_skips_non_power_of_two:
  "inverse_fft [1, 2, 3] = Some (Inr [1, 2, 3])
   \<and> inverseComplex [1, 2, 3] = Some (Inr [1, 2, 3])"
  by (simp add: inverse_fft_def inverseComplex_def radix2FFT_def isValidSize_def)

section \<open>Proofs: streaming FFT\<close>

lemma frame_count_step:
  assumes "1 \<le> h" "N \<le> len" "0 < N"
  shows "frame_count N h len = Suc (frame_count N h (len - h))"
proof (cases "len - h < N")
  case True
  then have "len - N < h" using assms by linarith
  then show ?thesis using assms True by (simp add: frame_count_def)
next
  case False
  then have a: "h \<le> len - N" "N \<le> len - h" using assms by linarith+
  have "(len - N) div h = Suc ((len - N - h) div h)"
    using assms(1) a(1) by (intro le_div_geq) simp_all
  moreover have "len - N - h = len - h - N" by simp
  ultimately show ?thesis using assms a False by (simp add: frame_count_def)
qed

lemma rt_loop_closed:
  assumes N: "1 \<le> N" "N \<le> 2 ^ 30" and h: "1 \<le> h" and c: "length coeffs = N"
  shows "\<exists>res. rt_loop N h sr coeffs buf acc = Some (acc @ res, drop (length res * h) buf)
      \<and> length res = frame_count N h (length buf)
      \<and> (\<forall>i<length res. forward (map2 (*) (take N (drop (i * h) buf)) coeffs) sr None'
              = Some (Inr (res ! i)))
      \<and> length (drop (length res * h) buf) < N"
proof (induction "length buf" arbitrary: buf acc rule: less_induct)
  case less
  have N0: "0 < N" using N by simp
  show ?case
  proof (cases "N \<le> length buf")
    case False
    then have "rt_loop N h sr coeffs buf acc = Some (acc, buf)"
      by (subst rt_loop.simps) simp
    then show ?thesis using False by (intro exI[of _ "[]"]) (simp add: frame_count_def)
  next
    case True
    define fr where "fr = map2 (*) (take N buf) coeffs"
    have lfr: "length fr = N" using True c by (simp add: fr_def)
    then have "fr \<noteq> []" using N(1) by auto
    moreover have "length fr \<le> 2 ^ 30" using lfr N(2) by simp
    ultimately obtain r where r: "forward fr sr None' = Some (Inr r)"
      using forward_pads_and_transforms[of fr sr None'] by blast
    have shorter: "length (drop h buf) < length buf" using True N0 h by simp
    obtain res' where res':
      "rt_loop N h sr coeffs (drop h buf) (acc @ [r])
         = Some ((acc @ [r]) @ res', drop (length res' * h) (drop h buf))"
      "length res' = frame_count N h (length (drop h buf))"
      "\<forall>i<length res'. forward (map2 (*) (take N (drop (i * h) (drop h buf))) coeffs) sr None'
              = Some (Inr (res' ! i))"
      "length (drop (length res' * h) (drop h buf)) < N"
      using less[OF shorter, of "acc @ [r]"] by blast
    have dd: "drop (n * h) (drop h buf) = drop (Suc n * h) buf" for n
      by (simp add: add.commute)
    have run: "rt_loop N h sr coeffs buf acc = Some (acc @ r # res', drop (length (r # res') * h) buf)"
      using True r res'(1) by (subst rt_loop.simps) (simp add: fr_def[symmetric] dd add.commute)
    have cnt: "length (r # res') = frame_count N h (length buf)"
      using res'(2) frame_count_step[OF h True N0] by simp
    have nth: "\<forall>i<length (r # res'). forward (map2 (*) (take N (drop (i * h) buf)) coeffs) sr None'
              = Some (Inr ((r # res') ! i))"
    proof (intro allI impI)
      fix i assume i: "i < length (r # res')"
      show "forward (map2 (*) (take N (drop (i * h) buf)) coeffs) sr None'
              = Some (Inr ((r # res') ! i))"
      proof (cases i)
        case 0
        then show ?thesis using r by (simp add: fr_def)
      next
        case (Suc j)
        then have "j < length res'" using i by simp
        with res'(3) have "forward (map2 (*) (take N (drop (j * h) (drop h buf))) coeffs) sr None'
              = Some (Inr (res' ! j))" by blast
        then show ?thesis using Suc by (simp only: dd nth_Cons_Suc)
      qed
    qed
    have rest: "length (drop (length (r # res') * h) buf) < N"
      using res'(4) by (simp only: dd length_Cons)
    from run cnt nth rest show ?thesis by blast
  qed
qed


lemma hopSize_bounds:
  assumes "0 \<le> overlap" "overlap \<le> 3 / 4"
  shows "rt_hopSize (RealTimeFFT_new N sr overlap w) = max 1 (nat (round (real N * (1 - overlap))))"
    and "1 \<le> rt_hopSize (RealTimeFFT_new N sr overlap w)"
    and "rt_hopSize (RealTimeFFT_new N sr overlap w) \<le> max 1 N"
proof -
  show "rt_hopSize (RealTimeFFT_new N sr overlap w) = max 1 (nat (round (real N * (1 - overlap))))"
    by (simp add: RealTimeFFT_new_def)
  show "1 \<le> rt_hopSize (RealTimeFFT_new N sr overlap w)"
    by (simp add: RealTimeFFT_new_def)
  have "real N * (1 - overlap) \<le> real N * 1"
    using assms(1) by (intro mult_left_mono) simp_all
  then have "round (real N * (1 - overlap)) \<le> round (real N)"
    by (intro round_mono) simp
  then have "nat (round (real N * (1 - overlap))) \<le> N" by simp
  then show "rt_hopSize (RealTimeFFT_new N sr overlap w) \<le> max 1 N"
    by (simp add: RealTimeFFT_new_def)
qed

text \<open>
  C7. For a streaming FFT with \<open>1 \<le> fftSize \<le> 2^30\<close>, a hop size of at least 1 and
  \<open>fftSize\<close> cached coefficients, \<open>processSamples\<close> returns: it emits one result per full
  window of the buffered samples followed by the batch, at offsets \<open>0, hop, 2 hop, ...\<close>
  (\<open>frame_count\<close> of them, possibly none), each the \<open>forward\<close> FFT of the window
  multiplied by the cached coefficients; it keeps the samples after the last discarded
  hop, fewer than \<open>fftSize\<close>, and changes nothing else. For every overlap factor in
  \<open>[0, 0.75]\<close> the constructor's hop size is \<open>fftSize * (1 - overlapFactor)\<close> rounded to
  an integer, at least 1 and at most \<open>fftSize\<close> (for \<open>fftSize \<ge> 1\<close>).
\<close>

theorem realtime_fft_streaming:
  assumes "1 \<le> rt_fftSize s" "rt_fftSize s \<le> 2 ^ 30" "1 \<le> rt_hopSize s"
    and "length (rt_windowCoeffs s) = rt_fftSize s"
  shows "(\<exists>results s'. processSamples s batch = Some (results, s')
       \<and> length results
           = frame_count (rt_fftSize s) (rt_hopSize s) (length (rt_buffer s @ batch))
       \<and> (\<forall>i<length results.
             forward (map2 (*) (take (rt_fftSize s) (drop (i * rt_hopSize s) (rt_buffer s @ batch)))
                        (rt_windowCoeffs s)) (rt_sampleRate s) None'
               = Some (Inr (results ! i)))
       \<and> s' = s\<lparr>rt_buffer := drop (length results * rt_hopSize s) (rt_buffer s @ batch)\<rparr>
       \<and> length (rt_buffer s') < rt_fftSize s)
     \<and> (0 \<le> overlap \<and> overlap \<le> 3 / 4 \<longrightarrow>
          rt_hopSize (RealTimeFFT_new N sr overlap w)
            = max 1 (nat (round (real N * (1 - overlap))))
          \<and> 1 \<le> rt_hopSize (RealTimeFFT_new N sr overlap w)
          \<and> rt_hopSize (RealTimeFFT_new N sr overlap w) \<le> max 1 N)"
proof -
  obtain res where res:
    "rt_loop (rt_fftSize s) (rt_hopSize s) (rt_sampleRate s) (rt_windowCoeffs s)
        (rt_buffer s @ batch) []
       = Some ([] @ res, drop (length res * rt_hopSize s) (rt_buffer s @ batch))"
    "length res = frame_count (rt_fftSize s) (rt_hopSize s) (length (rt_buffer s @ batch))"
    "\<forall>i<length res.
        forward (map2 (*) (take (rt_fftSize s) (drop (i * rt_hopSize s) (rt_buffer s @ batch)))
                   (rt_windowCoeffs s)) (rt_sampleRate s) None'
          = Some (Inr (res ! i))"
    "length (drop (length res * rt_hopSize s) (rt_buffer s @ batch)) < rt_fftSize s"
    using rt_loop_closed[OF assms(1,2,3,4), of "rt_sampleRate s" "rt_buffer s @ batch" "[]"]
    by blast
  define s' where "s' = s\<lparr>rt_buffer := drop (length res * rt_hopSize s) (rt_buffer s @ batch)\<rparr>"
  have run: "processSamples s batch = Some (res, s')"
    using res(1) by (simp add: processSamples_def s'_def)
  have "length (rt_buffer s') < rt_fftSize s" using res(4) by (simp add: s'_def)
  with run res(2,3) have first: "\<exists>results s'. processSamples s batch = Some (results, s')
       \<and> length results
           = frame_count (rt_fftSize s) (rt_hopSize s) (length (rt_buffer s @ batch))
       \<and> (\<forall>i<length results.
             forward (map2 (*) (take (rt_fftSize s) (drop (i * rt_hopSize s) (rt_buffer s @ batch)))
                        (rt_windowCoeffs s)) (rt_sampleRate s) None'
               = Some (Inr (results ! i)))
       \<and> s' = s\<lparr>rt_buffer := drop (length results * rt_hopSize s) (rt_buffer s @ batch)\<rparr>
       \<and> length (rt_buffer s') < rt_fftSize s"
    unfolding s'_def by blast
  have second: "0 \<le> overlap \<and> overlap \<le> 3 / 4 \<longrightarrow>
          rt_hopSize (RealTimeFFT_new N sr overlap w)
            = max 1 (nat (round (real N * (1 - overlap))))
          \<and> 1 \<le> rt_hopSize (RealTimeFFT_new N sr overlap w)
          \<and> rt_hopSize (RealTimeFFT_new N sr overlap w) \<le> max 1 N"
    using hopSize_bounds[of overlap N sr w] by blast
  from first second show ?thesis by (rule conjI)
qed

theorem realtime_fft_streaming_witness:
  "\<exists>results s'. processSamples (RealTimeFFT_new 4 1000 (1 / 2) None') [1, 2, 3, 4, 5, 6, 7]
        = Some (results, s')
     \<and> length results = 2 \<and> rt_buffer s' = [5, 6, 7] \<and> rt_hopSize s' = 2"
proof -
  have h: "1 \<le> rt_fftSize (RealTimeFFT_new 4 1000 (1 / 2) None')"
    "rt_fftSize (RealTimeFFT_new 4 1000 (1 / 2) None') \<le> 2 ^ 30"
    "1 \<le> rt_hopSize (RealTimeFFT_new 4 1000 (1 / 2) None')"
    "length (rt_windowCoeffs (RealTimeFFT_new 4 1000 (1 / 2) None'))
       = rt_fftSize (RealTimeFFT_new 4 1000 (1 / 2) None')"
    by (simp_all add: RealTimeFFT_new_def generateWindow_def)
  have hop: "rt_hopSize (RealTimeFFT_new 4 1000 (1 / 2) None') = 2"
    by (simp add: RealTimeFFT_new_def)
  from realtime_fft_streaming[OF h, of "[1, 2, 3, 4, 5, 6, 7]"]
  obtain results s' where r:
    "processSamples (RealTimeFFT_new 4 1000 (1 / 2) None') [1, 2, 3, 4, 5, 6, 7]
        = Some (results, s')"
    "length results = frame_count (rt_fftSize (RealTimeFFT_new 4 1000 (1 / 2) None'))
        (rt_hopSize (RealTimeFFT_new 4 1000 (1 / 2) None'))
        (length (rt_buffer (RealTimeFFT_new 4 1000 (1 / 2) None') @ [1, 2, 3, 4, 5, 6, 7::real]))"
    "s' = (RealTimeFFT_new 4 1000 (1 / 2) None')\<lparr>rt_buffer :=
        drop (length results * rt_hopSize (RealTimeFFT_new 4 1000 (1 / 2) None'))
          (rt_buffer (RealTimeFFT_new 4 1000 (1 / 2) None') @ [1, 2, 3, 4, 5, 6, 7])\<rparr>"
    by blast
  have n: "length results = 2"
    using r(2) unfolding hop by (simp add: RealTimeFFT_new_def frame_count_def)
  have "rt_buffer s' = [5, 6, 7]" "rt_hopSize s' = 2"
    using r(3) hop unfolding n by (simp_all add: RealTimeFFT_new_def)
  with r(1) n show ?thesis by blast
qed

end
